theory Spec2Isabelle
  imports Complex_Main "HOL-Library.Multiset"
begin

section \<open>Data model of the ImageToPdf component\<close>

text \<open>
  The component \<^verbatim>\<open>ImageToPdf.tsx\<close> keeps its session in React state hooks. The model
  below collects the hooks the handlers read and write in one record and turns each
  handler into a function from the session to the next session; the handlers that
  change the two lists are also given as the calls they make, one by one.

  JavaScript numbers are doubles. A finite double is modelled by the rational number it
  denotes, and every arithmetic operation of the source rounds its exact result to the
  nearest double (section \<open>Double-precision arithmetic\<close>). Array indices are \<open>int\<close>,
  since a handler can be handed any integer.
\<close>

record File =
  file_name :: string
  file_type :: string
  file_size :: nat

type_synonym blob_url = nat

record Preview =
  name :: string
  url :: blob_url
  pfile :: File
  ident :: string

datatype PageSize = a4 | letter | legal | a3
datatype PageOrientation = portrait | landscape
datatype ImageSize = fit | fill | original
datatype SortOrder = asc | desc

text \<open>
  The fields up to \<open>fileInputValue\<close> are the component's hooks (\<open>fileInputValue\<close> is the
  value of the file input behind \<^verbatim>\<open>fileInputRef\<close>, \<open>None\<close> when the ref is not attached).
  The last two fields are the browser's side of \<^verbatim>\<open>URL.createObjectURL\<close> and
  \<^verbatim>\<open>URL.revokeObjectURL\<close>: the next handle to hand out and the handles released so far,
  in call order.
\<close>

record session =
  files :: "File list"
  previews :: "Preview list"
  isConverting :: bool
  pageSize :: PageSize
  orientation :: PageOrientation
  imageSize :: ImageSize
  margin :: rat
  fileName :: string
  sortOrder :: SortOrder
  isLoading :: bool
  progress :: nat
  fileInputValue :: "string option"
  nextUrl :: blob_url
  revoked :: "blob_url list"

definition initial :: session where
  "initial = \<lparr> files = [], previews = [], isConverting = False, pageSize = a4,
     orientation = portrait, imageSize = fit, margin = 10, fileName = ''images-to-pdf'',
     sortOrder = asc, isLoading = False, progress = 0, fileInputValue = Some [],
     nextUrl = 0, revoked = [] \<rparr>"

datatype js_error = TypeError | UndefinedEntry | DecodeFailure | NonFinite


section \<open>Double-precision arithmetic\<close>

text \<open>
  The arithmetic of JavaScript numbers (IEEE 754 binary64, rounding to nearest, ties to
  even). \<open>bit_length n\<close> is the number of binary digits of a positive integer, so
  \<open>exponent q\<close> is the integer \<open>e\<close> with \<open>2 ^ e \<le> q < 2 ^ (e + 1)\<close> for a positive
  rational \<open>q\<close>. \<open>round64 q\<close> scales \<open>q\<close> so that its integer part has 53 binary digits,
  rounds to the nearest integer, an exact half going to the even neighbour, and scales
  back. The exponent is not bounded here: overflow to \<^verbatim>\<open>Infinity\<close> and the subnormal
  numbers lie beyond \<open>2 ^ 1023\<close> and below \<open>2 ^ - 1022\<close>, far from the millimetre values
  of the layout. \<^verbatim>\<open>Math.min\<close>, \<^verbatim>\<open>Math.max\<close> and the comparisons are exact on finite
  numbers.
\<close>

function bit_length :: "int \<Rightarrow> int" where
  "bit_length n = (if n \<le> 0 then 0 else 1 + bit_length (n div 2))"
  by pat_completeness auto
termination
  by (relation "measure nat") auto

declare bit_length.simps [simp del]

definition exponent :: "rat \<Rightarrow> int" where
  "exponent q =
     (if 1 \<le> q then bit_length \<lfloor>q\<rfloor> - 1 else - bit_length (\<lceil>1 / q\<rceil> - 1))"

definition round_half_even :: "rat \<Rightarrow> int" where
  "round_half_even v =
     (let f = \<lfloor>v\<rfloor>; d = v - of_int f
      in if d < 1 / 2 then f else if 1 / 2 < d then f + 1 else if even f then f else f + 1)"

definition round64 :: "rat \<Rightarrow> rat" where
  "round64 q =
     (if q = 0 then 0
      else (let a = \<bar>q\<bar>; s = 2 powi (exponent a - 52)
            in sgn q * (of_int (round_half_even (a / s)) * s)))"

text \<open>
  The operators \<^verbatim>\<open>*\<close>, \<^verbatim>\<open>/\<close> and \<^verbatim>\<open>-\<close> on numbers, and a decimal literal of the source
  text, which denotes the double nearest to it. A division is only ever evaluated here
  with a divisor that is not zero (see \<open>place\<close>).
\<close>

definition js_mul :: "rat \<Rightarrow> rat \<Rightarrow> rat" where
  "js_mul a b = round64 (a * b)"

definition js_div :: "rat \<Rightarrow> rat \<Rightarrow> rat" where
  "js_div a b = round64 (a / b)"

definition js_sub :: "rat \<Rightarrow> rat \<Rightarrow> rat" where
  "js_sub a b = round64 (a - b)"

definition js_lit :: "rat \<Rightarrow> rat" where
  "js_lit q = round64 q"


section \<open>Layout of one image on a page\<close>

text \<open>The table \<^verbatim>\<open>pageDimensions\<close> of \<^verbatim>\<open>generatePDF\<close>: (width, height) in millimetres.\<close>

fun pageDimensions :: "PageSize \<Rightarrow> rat \<times> rat" where
  "pageDimensions a4 = (js_lit 210, js_lit 297)"
| "pageDimensions letter = (js_lit 215.9, js_lit 279.4)"
| "pageDimensions legal = (js_lit 215.9, js_lit 355.6)"
| "pageDimensions a3 = (js_lit 297, js_lit 420)"

definition pageWidth :: "PageSize \<Rightarrow> PageOrientation \<Rightarrow> rat" where
  "pageWidth ps ori =
     (if ori = landscape then snd (pageDimensions ps) else fst (pageDimensions ps))"

definition pageHeight :: "PageSize \<Rightarrow> PageOrientation \<Rightarrow> rat" where
  "pageHeight ps ori =
     (if ori = landscape then fst (pageDimensions ps) else snd (pageDimensions ps))"

definition pxToMm :: rat where
  "pxToMm = js_div (js_lit 25.4) (js_lit 96)"

text \<open>The rectangle handed to \<^verbatim>\<open>pdf.addImage\<close>: \<open>rx\<close> and \<open>ry\<close> are the source's
  \<^verbatim>\<open>x\<close> and \<^verbatim>\<open>y\<close>.\<close>

record rect =
  rx :: rat
  ry :: rat
  finalW :: rat
  finalH :: rat

text \<open>
  \<^verbatim>\<open>const ratio = Math.min(widthRatio, heightRatio, 1)\<close> of the \<^verbatim>\<open>"fit"\<close> case, and
  \<^verbatim>\<open>const fillRatio = Math.max(maxW / imgWmm, maxH / imgHmm)\<close> of the \<^verbatim>\<open>"fill"\<close> case.
\<close>

definition fitRatio :: "rat \<Rightarrow> rat \<Rightarrow> rat \<Rightarrow> rat \<Rightarrow> rat" where
  "fitRatio maxW maxH imgWmm imgHmm = min (min (js_div maxW imgWmm) (js_div maxH imgHmm)) 1"

definition fillRatio :: "rat \<Rightarrow> rat \<Rightarrow> rat \<Rightarrow> rat \<Rightarrow> rat" where
  "fillRatio maxW maxH imgWmm imgHmm = max (js_div maxW imgWmm) (js_div maxH imgHmm)"

text \<open>
  The body of the loop of \<^verbatim>\<open>generatePDF\<close> between reading the natural size of the
  image and \<^verbatim>\<open>addImage\<close>. \<open>pw\<close> and \<open>ph\<close> are the page width and height after the
  orientation swap, \<open>m\<close> the margin, \<open>wpx\<close> and \<open>hpx\<close> the natural size in pixels.
  The natural size of an image is an unsigned 32-bit integer, which a double holds
  exactly, and a raster image that loads has a positive one. With a zero size the source
  divides by zero and computes with \<^verbatim>\<open>Infinity\<close> and \<^verbatim>\<open>NaN\<close>, which are no values of this
  model: there \<open>place\<close> stops with \<open>NonFinite\<close>, which marks the end of the model and is
  no exception of the source.
\<close>

definition place :: "ImageSize \<Rightarrow> rat \<Rightarrow> rat \<Rightarrow> rat \<Rightarrow> nat \<Rightarrow> nat \<Rightarrow> js_error + rect" where
  "place policy pw ph m wpx hpx =
     (if wpx = 0 \<or> hpx = 0 then Inl NonFinite
      else
       (let maxW = js_sub pw (js_mul m 2);
            maxH = js_sub ph (js_mul m 2);
            imgWmm = js_mul (of_nat wpx) pxToMm;
            imgHmm = js_mul (of_nat hpx) pxToMm
        in case policy of
             fit \<Rightarrow>
               (let ratio = fitRatio maxW maxH imgWmm imgHmm;
                    fw = js_mul imgWmm ratio;
                    fh = js_mul imgHmm ratio
                in Inr \<lparr> rx = js_div (js_sub pw fw) 2, ry = js_div (js_sub ph fh) 2,
                         finalW = fw, finalH = fh \<rparr>)
           | fill \<Rightarrow>
               (let ratio = fillRatio maxW maxH imgWmm imgHmm;
                    fw = js_mul imgWmm ratio;
                    fh = js_mul imgHmm ratio
                in Inr \<lparr> rx = js_div (js_sub pw fw) 2, ry = js_div (js_sub ph fh) 2,
                         finalW = fw, finalH = fh \<rparr>)
           | original \<Rightarrow>
               (let (fw, fh) =
                      (if imgWmm > maxW \<or> imgHmm > maxH
                       then (let ratio = min (min (js_div maxW imgWmm) (js_div maxH imgHmm)) 1
                             in (js_mul imgWmm ratio, js_mul imgHmm ratio))
                       else (imgWmm, imgHmm))
                in Inr \<lparr> rx = js_div (js_sub pw fw) 2, ry = js_div (js_sub ph fh) 2,
                         finalW = fw, finalH = fh \<rparr>)))"


section \<open>The image-type tag\<close>

text \<open>\<^verbatim>\<open>String.prototype.includes\<close>: the second string occurs somewhere in the first.\<close>

fun starts_with :: "string \<Rightarrow> string \<Rightarrow> bool" where
  "starts_with s [] = True"
| "starts_with [] (c # cs) = False"
| "starts_with (d # ds) (c # cs) = (d = c \<and> starts_with ds cs)"

fun str_includes :: "string \<Rightarrow> string \<Rightarrow> bool" where
  "str_includes [] sub = (sub = [])"
| "str_includes (d # ds) sub = (starts_with (d # ds) sub \<or> str_includes ds sub)"

definition typeTag :: "string \<Rightarrow> string" where
  "typeTag t = (if str_includes t ''png'' then ''PNG''
                else if str_includes t ''webp'' then ''WEBP'' else ''JPEG'')"

text \<open>The filter of \<^verbatim>\<open>handleFiles\<close>.\<close>

definition accepted :: "File \<Rightarrow> bool" where
  "accepted f = (file_type f = ''image/jpeg'' \<or> file_type f = ''image/png'' \<or>
                 file_type f = ''image/webp'' \<or> file_type f = ''image/gif'')"



section \<open>Session operations\<close>

text \<open>
  The callback that \<^verbatim>\<open>handleFiles\<close> hands to \<^verbatim>\<open>setTimeout\<close>. Both setters are given
  updater functions, so the new entries are appended to the lists as they are when the
  callback runs. \<open>ids k\<close> is the string that \<^verbatim>\<open>Math.random().toString(36).substr(2, 9)\<close>
  returns for the \<open>k\<close>-th chosen file; \<^verbatim>\<open>URL.createObjectURL\<close> hands out the next
  handles of the browser.
\<close>

definition newPreviews :: "(nat \<Rightarrow> string) \<Rightarrow> blob_url \<Rightarrow> File list \<Rightarrow> Preview list" where
  "newPreviews ids u chosen =
     map (\<lambda>(k, f). \<lparr> name = file_name f, url = u + k, pfile = f, ident = ids k \<rparr>)
       (enumerate 0 chosen)"

definition handleFiles :: "(nat \<Rightarrow> string) \<Rightarrow> File list \<Rightarrow> session \<Rightarrow> session" where
  "handleFiles ids fs st =
     (let chosen = filter accepted fs
      in st \<lparr> files := files st @ chosen,
              previews := previews st @ newPreviews ids (nextUrl st) chosen,
              nextUrl := nextUrl st + length chosen,
              isLoading := False \<rparr>)"

definition clear :: "session \<Rightarrow> session" where
  "clear st =
     st \<lparr> revoked := revoked st @ map url (previews st),
          files := [],
          previews := [],
          fileInputValue := (case fileInputValue st of None \<Rightarrow> None | Some v \<Rightarrow> Some []) \<rparr>"

text \<open>
  \<^verbatim>\<open>Array.prototype.splice(start, deleteCount, ...items)\<close>: a negative start counts from
  the end, and the start is clamped to the array. \<open>splice_remove1\<close> is
  \<^verbatim>\<open>splice(start, 1)\<close>: the removed elements (none or one) and the array that is left.
  \<open>splice_insert\<close> is \<^verbatim>\<open>splice(start, 0, v)\<close>.
\<close>

definition splice_start :: "int \<Rightarrow> nat \<Rightarrow> nat" where
  "splice_start start len =
     (if start < 0 then nat (max (int len + start) 0) else min (nat start) len)"

definition splice_remove1 :: "int \<Rightarrow> 'a list \<Rightarrow> 'a list \<times> 'a list" where
  "splice_remove1 start xs =
     (let s = splice_start start (length xs)
      in (take 1 (drop s xs), take s xs @ drop (s + 1) xs))"

definition splice_insert :: "int \<Rightarrow> 'a \<Rightarrow> 'a list \<Rightarrow> 'a list" where
  "splice_insert start v xs =
     (let s = splice_start start (length xs) in take s xs @ [v] @ drop s xs)"

text \<open>
  \<^verbatim>\<open>reorderImages\<close>. When \<^verbatim>\<open>splice(fromIndex, 1)\<close> removes nothing, \<^verbatim>\<open>moved\<close> is
  \<^verbatim>\<open>undefined\<close> and the source inserts it: the array then holds a value that is no
  \<^verbatim>\<open>Preview\<close>, and the model stops with \<open>UndefinedEntry\<close>.
\<close>

definition reorderImages :: "int \<Rightarrow> int \<Rightarrow> session \<Rightarrow> js_error + session" where
  "reorderImages fromIndex toIndex st =
     (case splice_remove1 fromIndex (previews st) of
        ([], rest) \<Rightarrow> Inl UndefinedEntry
      | (moved # others, rest) \<Rightarrow>
          (case splice_remove1 fromIndex (files st) of
             ([], restF) \<Rightarrow> Inl UndefinedEntry
           | (movedFile # othersF, restF) \<Rightarrow>
               Inr (st \<lparr> previews := splice_insert toIndex moved rest,
                         files := splice_insert toIndex movedFile restF \<rparr>)))"

text \<open>
  \<^verbatim>\<open>Array.prototype.sort(compareFn)\<close> is a stable sort: an element goes before another
  when \<open>compareFn\<close> is negative on them, and elements on which it is zero keep their
  order. It is modelled as insertion from the right end, which is that sort whenever
  \<open>compareFn\<close> is a consistent comparator (for an inconsistent one the language leaves
  the order to the implementation).
\<close>

fun js_insort :: "('a \<Rightarrow> 'a \<Rightarrow> int) \<Rightarrow> 'a \<Rightarrow> 'a list \<Rightarrow> 'a list" where
  "js_insort cmp v [] = [v]"
| "js_insort cmp v (w # ws) = (if cmp v w \<le> 0 then v # w # ws else w # js_insort cmp v ws)"

definition js_sort :: "('a \<Rightarrow> 'a \<Rightarrow> int) \<Rightarrow> 'a list \<Rightarrow> 'a list" where
  "js_sort cmp xs = foldr (js_insort cmp) xs []"

text \<open>
  \<^verbatim>\<open>sortImages\<close>. \<open>localeCompare\<close> stands for \<^verbatim>\<open>String.prototype.localeCompare\<close> of the
  platform, which depends on the locale and is a parameter here.
\<close>

definition compareFn :: "(string \<Rightarrow> string \<Rightarrow> int) \<Rightarrow> SortOrder \<Rightarrow> Preview \<Rightarrow> Preview \<Rightarrow> int" where
  "compareFn localeCompare newOrder a b =
     (if newOrder = asc then localeCompare (name a) (name b)
      else localeCompare (name b) (name a))"

definition sortImages :: "(string \<Rightarrow> string \<Rightarrow> int) \<Rightarrow> session \<Rightarrow> session" where
  "sortImages localeCompare st =
     (let newOrder = (if sortOrder st = asc then desc else asc);
          sortedPreviews = js_sort (compareFn localeCompare newOrder) (previews st);
          sortedFiles = map pfile sortedPreviews
      in st \<lparr> sortOrder := newOrder, previews := sortedPreviews, files := sortedFiles \<rparr>)"

text \<open>
  The text of the button that runs \<^verbatim>\<open>sortImages\<close>, from the markup of the component:
  \<^verbatim>\<open>Sort {sortOrder === "asc" ? "A->Z" : "Z->A"}\<close>, the arrow of the source written \<open>->\<close>.
\<close>

definition sortLabel :: "session \<Rightarrow> string" where
  "sortLabel st = ''Sort '' @ (if sortOrder st = asc then ''A->Z'' else ''Z->A'')"

text \<open>
  Modelled from the spec: \<^verbatim>\<open>localeCompare\<close> is not code of the component; the
  specification describes the order as the case-insensitive lexicographic comparison
  of the names. \<open>name_compare\<close> is that comparison, on character codes with the
  letters \<open>A\<close> to \<open>Z\<close> folded to lower case. It serves as the concrete comparator
  wherever \<open>sortImages\<close> is evaluated.
\<close>

definition fold_case :: "char \<Rightarrow> nat" where
  "fold_case c = (let n = of_char c in if 65 \<le> n \<and> n \<le> 90 then n + 32 else n)"

fun lex_compare :: "nat list \<Rightarrow> nat list \<Rightarrow> int" where
  "lex_compare [] [] = 0"
| "lex_compare [] (b # bs) = - 1"
| "lex_compare (a # as) [] = 1"
| "lex_compare (a # as) (b # bs) =
     (if a < b then - 1 else if b < a then 1 else lex_compare as bs)"

definition name_compare :: "string \<Rightarrow> string \<Rightarrow> int" where
  "name_compare s t = lex_compare (map fold_case s) (map fold_case t)"

text \<open>
  \<^verbatim>\<open>removeImage\<close>. \<open>array_get\<close> is the index read \<^verbatim>\<open>previews[index]\<close>, \<open>None\<close> for
  \<^verbatim>\<open>undefined\<close>; reading \<^verbatim>\<open>.url\<close> of \<^verbatim>\<open>undefined\<close> throws a \<^verbatim>\<open>TypeError\<close> while the
  argument of \<^verbatim>\<open>URL.revokeObjectURL\<close> is evaluated, before that call and before the
  setters. A throw is \<open>Inl\<close> of the error and the session as it is at the throw; a
  normal return is \<open>Inr\<close> of the new session. \<open>filter_index\<close> is
  \<^verbatim>\<open>filter((_, i) => i !== index)\<close>.
\<close>

definition array_get :: "'a list \<Rightarrow> int \<Rightarrow> 'a option" where
  "array_get xs i = (if 0 \<le> i \<and> i < int (length xs) then Some (xs ! nat i) else None)"

definition filter_index :: "int \<Rightarrow> 'a list \<Rightarrow> 'a list" where
  "filter_index index xs =
     map snd (filter (\<lambda>(i, v). int i \<noteq> index) (enumerate 0 xs))"

definition removeImage :: "int \<Rightarrow> session \<Rightarrow> (js_error \<times> session) + session" where
  "removeImage index st =
     (case array_get (previews st) index of
        None \<Rightarrow> Inl (TypeError, st)
      | Some p \<Rightarrow>
          Inr (st \<lparr> revoked := revoked st @ [url p],
                    previews := filter_index index (previews st),
                    files := filter_index index (files st) \<rparr>))"


text \<open>
  The calls that one run of a handler makes on the setters of the two lists, on the
  other setters and on the browser, in the order of the source text. A setter takes an
  updater function; a setter called with a value takes the constant function.
  \<open>perform\<close> is the effect of one call on the session and \<open>commit\<close> the effect of the
  calls of one run, in order. A run is one handler, or for \<^verbatim>\<open>handleFiles\<close> the timeout
  callback, from its start to its return: it has no point of suspension, so no other
  handler runs inside it, and the next handler finds the session that \<open>commit\<close> gives.
\<close>

datatype call =
    SetFiles "File list \<Rightarrow> File list"
  | SetPreviews "Preview list \<Rightarrow> Preview list"
  | SetSortOrder SortOrder
  | SetIsLoading bool
  | CreateObjectURL
  | RevokeObjectURL blob_url
  | ResetFileInput

fun perform :: "call \<Rightarrow> session \<Rightarrow> session" where
  "perform (SetFiles g) st = st \<lparr> files := g (files st) \<rparr>"
| "perform (SetPreviews g) st = st \<lparr> previews := g (previews st) \<rparr>"
| "perform (SetSortOrder ord) st = st \<lparr> sortOrder := ord \<rparr>"
| "perform (SetIsLoading b) st = st \<lparr> isLoading := b \<rparr>"
| "perform CreateObjectURL st = st \<lparr> nextUrl := nextUrl st + 1 \<rparr>"
| "perform (RevokeObjectURL u) st = st \<lparr> revoked := revoked st @ [u] \<rparr>"
| "perform ResetFileInput st =
     st \<lparr> fileInputValue := (case fileInputValue st of None \<Rightarrow> None | Some v \<Rightarrow> Some []) \<rparr>"

definition commit :: "call list \<Rightarrow> session \<Rightarrow> session" where
  "commit cs st = foldl (\<lambda>s c. perform c s) st cs"

fun sets_files :: "call \<Rightarrow> bool" where
  "sets_files (SetFiles g) = True"
| "sets_files c = False"

fun sets_previews :: "call \<Rightarrow> bool" where
  "sets_previews (SetPreviews g) = True"
| "sets_previews c = False"

text \<open>A run updates both lists when it calls each of the two list setters exactly once.\<close>

definition updates_both :: "call list \<Rightarrow> bool" where
  "updates_both cs =
     (length (filter sets_files cs) = 1 \<and> length (filter sets_previews cs) = 1)"

text \<open>The calls of the five handlers, line by line.\<close>

definition handleFiles_calls :: "(nat \<Rightarrow> string) \<Rightarrow> File list \<Rightarrow> session \<Rightarrow> call list" where
  "handleFiles_calls ids fs st =
     (let chosen = filter accepted fs
      in [SetFiles (\<lambda>prev. prev @ chosen)] @
         replicate (length chosen) CreateObjectURL @
         [SetPreviews (\<lambda>prev. prev @ newPreviews ids (nextUrl st) chosen),
          SetIsLoading False])"

definition clear_calls :: "session \<Rightarrow> call list" where
  "clear_calls st =
     map (\<lambda>p. RevokeObjectURL (url p)) (previews st) @
     [SetFiles (\<lambda>prev. []), SetPreviews (\<lambda>prev. []), ResetFileInput]"

definition reorderImages_calls :: "int \<Rightarrow> int \<Rightarrow> session \<Rightarrow> js_error + call list" where
  "reorderImages_calls fromIndex toIndex st =
     (case splice_remove1 fromIndex (previews st) of
        ([], rest) \<Rightarrow> Inl UndefinedEntry
      | (moved # others, rest) \<Rightarrow>
          (case splice_remove1 fromIndex (files st) of
             ([], restF) \<Rightarrow> Inl UndefinedEntry
           | (movedFile # othersF, restF) \<Rightarrow>
               Inr [SetPreviews (\<lambda>prev. splice_insert toIndex moved rest),
                    SetFiles (\<lambda>prev. splice_insert toIndex movedFile restF)]))"

definition sortImages_calls :: "(string \<Rightarrow> string \<Rightarrow> int) \<Rightarrow> session \<Rightarrow> call list" where
  "sortImages_calls localeCompare st =
     (let newOrder = (if sortOrder st = asc then desc else asc);
          sortedPreviews = js_sort (compareFn localeCompare newOrder) (previews st);
          sortedFiles = map pfile sortedPreviews
      in [SetSortOrder newOrder, SetPreviews (\<lambda>prev. sortedPreviews),
          SetFiles (\<lambda>prev. sortedFiles)])"

definition removeImage_calls :: "int \<Rightarrow> session \<Rightarrow> js_error + call list" where
  "removeImage_calls index st =
     (case array_get (previews st) index of
        None \<Rightarrow> Inl TypeError
      | Some p \<Rightarrow>
          Inr [RevokeObjectURL (url p),
               SetPreviews (\<lambda>prev. filter_index index (previews st)),
               SetFiles (\<lambda>prev. filter_index index (files st))])"

text \<open>
  The two arrays as \<^verbatim>\<open>reorderImages\<close> leaves them for any pair of indices, with \<open>None\<close>
  for an \<^verbatim>\<open>undefined\<close> element: what \<^verbatim>\<open>splice(fromIndex, 1)\<close> removed, or \<^verbatim>\<open>undefined\<close>
  when it removed nothing, is inserted at \<^verbatim>\<open>toIndex\<close>.
\<close>

definition reorder_raw :: "int \<Rightarrow> int \<Rightarrow> 'a list \<Rightarrow> 'a option list" where
  "reorder_raw fromIndex toIndex xs =
     (case splice_remove1 fromIndex xs of
        (removed, rest) \<Rightarrow>
          splice_insert toIndex (case removed of [] \<Rightarrow> None | moved # others \<Rightarrow> Some moved)
            (map Some rest))"


section \<open>Generating the document\<close>

text \<open>
  Modelled from the spec: the PDF encoder is the external library jsPDF, used through
  \<^verbatim>\<open>new jsPDF\<close>, \<^verbatim>\<open>addPage\<close>, \<^verbatim>\<open>addImage\<close> and \<^verbatim>\<open>save\<close>. A document is its list of
  pages, each page the list of images placed on it; a new document has one empty page,
  \<^verbatim>\<open>addPage\<close> appends an empty page and makes it current, and \<^verbatim>\<open>addImage\<close> draws on
  the current page, which is the last one.
\<close>

record placed =
  dataUrl :: string
  tag :: string
  box :: rect

record pdf =
  format :: "rat \<times> rat"
  landscape_doc :: bool
  pages :: "placed list list"

definition jsPDF :: "rat \<times> rat \<Rightarrow> bool \<Rightarrow> pdf" where
  "jsPDF fmt isLandscape = \<lparr> format = fmt, landscape_doc = isLandscape, pages = [[]] \<rparr>"

definition addPage :: "pdf \<Rightarrow> pdf" where
  "addPage d = d \<lparr> pages := pages d @ [[]] \<rparr>"

definition addImage :: "placed \<Rightarrow> pdf \<Rightarrow> pdf" where
  "addImage img d =
     d \<lparr> pages := (if pages d = [] then []
                    else butlast (pages d) @ [last (pages d) @ [img]]) \<rparr>"

text \<open>
  The loop of \<^verbatim>\<open>generatePDF\<close> from index \<open>i\<close> on. \<open>readAsDataURL\<close> is \<^verbatim>\<open>fileToDataURL\<close>
  and \<open>loadImage\<close> is the load of the \<^verbatim>\<open>Image\<close> with its natural width and height;
  both are the browser's and \<open>None\<close> is a rejected promise, which leaves the loop for
  the \<^verbatim>\<open>catch\<close> block. The loop also ends where \<open>place\<close> does.
\<close>

fun render_loop ::
  "(File \<Rightarrow> string option) \<Rightarrow> (string \<Rightarrow> (nat \<times> nat) option) \<Rightarrow> ImageSize \<Rightarrow> rat \<Rightarrow> rat \<Rightarrow> rat
     \<Rightarrow> nat \<Rightarrow> File list \<Rightarrow> pdf \<Rightarrow> js_error + pdf" where
  "render_loop readAsDataURL loadImage policy pw ph m i [] d = Inr d"
| "render_loop readAsDataURL loadImage policy pw ph m i (f # fs) d =
     (case readAsDataURL f of
        None \<Rightarrow> Inl DecodeFailure
      | Some u \<Rightarrow>
          (case loadImage u of
             None \<Rightarrow> Inl DecodeFailure
           | Some (wpx, hpx) \<Rightarrow>
               (case place policy pw ph m wpx hpx of
                  Inl e \<Rightarrow> Inl e
                | Inr r \<Rightarrow>
                    (let d1 = (if i > 0 then addPage d else d);
                         d2 = addImage \<lparr> dataUrl = u, tag = typeTag (file_type f), box = r \<rparr> d1
                     in render_loop readAsDataURL loadImage policy pw ph m (i + 1) fs d2))))"

text \<open>
  What a run of \<^verbatim>\<open>generatePDF\<close> shows outside the session: the \<^verbatim>\<open>alert\<close> messages, whether
  a document object was created, and the file handed to \<^verbatim>\<open>pdf.save\<close>, if any. The
  session returned is the one after the run has ended, when \<^verbatim>\<open>isConverting\<close> and
  \<^verbatim>\<open>progress\<close> have been reset; the progress values shown while the loop runs are not
  recorded. The guard on an empty file list returns before any setter is called.
\<close>

record outcome =
  alerts :: "string list"
  created :: bool
  saved :: "(string \<times> pdf) option"

definition generatePDF ::
  "(File \<Rightarrow> string option) \<Rightarrow> (string \<Rightarrow> (nat \<times> nat) option) \<Rightarrow> session \<Rightarrow> session \<times> outcome" where
  "generatePDF readAsDataURL loadImage st =
     (if length (files st) = 0
      then (st, \<lparr> alerts = [''Please select one or more image files.''],
                  created = False, saved = None \<rparr>)
      else
        (let isLandscape = (orientation st = landscape);
             pw = pageWidth (pageSize st) (orientation st);
             ph = pageHeight (pageSize st) (orientation st);
             d0 = jsPDF (pw, ph) isLandscape;
             st' = st \<lparr> isConverting := False, progress := 0 \<rparr>
         in case render_loop readAsDataURL loadImage (imageSize st) pw ph (margin st) 0 (files st) d0 of
              Inl e \<Rightarrow>
                (st', \<lparr> alerts = [''An error occurred while generating the PDF. Please try again.''],
                        created = True, saved = None \<rparr>)
            | Inr d \<Rightarrow>
                (st', \<lparr> alerts = [], created = True, saved = Some (fileName st @ ''.pdf'', d) \<rparr>)))"

text \<open>An entry decodes when both browser steps succeed with a positive natural size.\<close>

definition decodes :: "(File \<Rightarrow> string option) \<Rightarrow> (string \<Rightarrow> (nat \<times> nat) option) \<Rightarrow> File \<Rightarrow> bool" where
  "decodes readAsDataURL loadImage f =
     (case readAsDataURL f of
        None \<Rightarrow> False
      | Some u \<Rightarrow> (case loadImage u of None \<Rightarrow> False | Some (wpx, hpx) \<Rightarrow> 0 < wpx \<and> 0 < hpx))"

text \<open>
  The content of the page that the loop draws for one entry: the one image placed for an
  entry that loads, nothing for an entry that does not.
\<close>

definition entry_page ::
  "(File \<Rightarrow> string option) \<Rightarrow> (string \<Rightarrow> (nat \<times> nat) option) \<Rightarrow> ImageSize \<Rightarrow> rat \<Rightarrow> rat \<Rightarrow> rat
     \<Rightarrow> File \<Rightarrow> placed list" where
  "entry_page readAsDataURL loadImage policy pw ph m f =
     (case readAsDataURL f of
        None \<Rightarrow> []
      | Some u \<Rightarrow>
          (case loadImage u of
             None \<Rightarrow> []
           | Some (wpx, hpx) \<Rightarrow>
               (case place policy pw ph m wpx hpx of
                  Inl e \<Rightarrow> []
                | Inr r \<Rightarrow> [\<lparr> dataUrl = u, tag = typeTag (file_type f), box = r \<rparr>])))"

text \<open>The invariant that ties the two lists of the session together.\<close>

definition lockstep :: "session \<Rightarrow> bool" where
  "lockstep st = (map pfile (previews st) = files st)"


text \<open>
  The move that the specification describes for a reorder: take the element at position
  \<open>i\<close> out and put it back at position \<open>j\<close> of what is left.
\<close>

definition move_entry :: "nat \<Rightarrow> nat \<Rightarrow> 'a list \<Rightarrow> 'a list" where
  "move_entry i j xs =
     (let rest = take i xs @ drop (Suc i) xs in take j rest @ [xs ! i] @ drop j rest)"

text \<open>
  The scenario of the specification: the files \<^verbatim>\<open>b.png\<close>, \<^verbatim>\<open>a.jpg\<close> and \<^verbatim>\<open>c.gif\<close>,
  added in that order to a fresh session.
\<close>

definition scenario_files :: "File list" where
  "scenario_files =
     [\<lparr> file_name = ''b.png'', file_type = ''image/png'', file_size = 20 \<rparr>,
      \<lparr> file_name = ''a.jpg'', file_type = ''image/jpeg'', file_size = 10 \<rparr>,
      \<lparr> file_name = ''c.gif'', file_type = ''image/gif'', file_size = 30 \<rparr>]"

definition scenario :: session where
  "scenario = handleFiles (\<lambda>k. ''id'') scenario_files initial"



section \<open>Properties of the rounding\<close>

lemma bit_length_nonneg: "0 \<le> bit_length n"
  by (induction n rule: bit_length.induct) (simp add: bit_length.simps)

lemma bit_length_bounds:
  "0 < n \<Longrightarrow> 2 ^ nat (bit_length n - 1) \<le> n \<and> n < 2 ^ nat (bit_length n)"
proof (induction n rule: bit_length.induct)
  case (1 n)
  show ?case
  proof (cases "n = 1")
    case True
    then show ?thesis by (simp add: bit_length.simps [of 1] bit_length.simps [of 0])
  next
    case False
    with "1.prems" have h: "0 < n div 2" by simp
    then have IH: "2 ^ nat (bit_length (n div 2) - 1) \<le> n div 2 \<and> n div 2 < 2 ^ nat (bit_length (n div 2))"
      using "1.IH" "1.prems" by simp
    have bl: "bit_length n = 1 + bit_length (n div 2)"
      using "1.prems" by (simp add: bit_length.simps [of n])
    have pos: "1 \<le> bit_length (n div 2)"
      using h bit_length.simps [of "n div 2"] bit_length_nonneg [of "n div 2 div 2"] by simp
    then have e1: "nat (bit_length n - 1) = Suc (nat (bit_length (n div 2) - 1))"
      and e2: "nat (bit_length n) = Suc (nat (bit_length (n div 2)))"
      using bl by simp_all
    show ?thesis
      unfolding e1 e2 using IH by simp presburger
  qed
qed

lemma exponent_le:
  assumes "0 < q"
  shows "2 powi exponent q \<le> q"
proof (cases "1 \<le> q")
  case True
  let ?n = "\<lfloor>q\<rfloor>"
  from True have n: "0 < ?n" by simp
  have b: "2 ^ nat (bit_length ?n - 1) \<le> ?n"
    using bit_length_bounds [OF n] by simp
  have ge: "0 \<le> bit_length ?n - 1"
    using n bit_length.simps [of ?n] bit_length_nonneg [of "?n div 2"] by simp
  have "(2::rat) powi (bit_length ?n - 1) = 2 ^ nat (bit_length ?n - 1)"
    using ge by (simp add: power_int_def)
  also have "\<dots> = of_int (2 ^ nat (bit_length ?n - 1))" by simp
  also have "\<dots> \<le> of_int ?n" using b by (simp only: of_int_le_iff)
  also have "\<dots> \<le> q" by simp
  finally show ?thesis using True by (simp add: exponent_def)
next
  case False
  let ?n = "\<lceil>1 / q\<rceil> - 1"
  let ?k = "bit_length ?n"
  have k: "0 \<le> ?k" by (rule bit_length_nonneg)
  from False assms have "1 < 1 / q" by simp
  then have "1 < \<lceil>1 / q\<rceil>" by (simp add: less_ceiling_iff)
  then have n: "0 < ?n" by simp
  have "?n < 2 ^ nat ?k" using bit_length_bounds [OF n] by simp
  then have "\<lceil>1 / q\<rceil> \<le> 2 ^ nat ?k" by simp
  then have "(of_int \<lceil>1 / q\<rceil> :: rat) \<le> 2 ^ nat ?k"
    by (metis of_int_le_iff of_int_numeral of_int_power)
  moreover have "1 / q \<le> of_int \<lceil>1 / q\<rceil>" by (rule le_of_int_ceiling)
  ultimately have "1 / q \<le> 2 ^ nat ?k" by (rule order_trans [rotated])
  then have "1 / 2 ^ nat ?k \<le> q"
    using assms by (simp add: field_simps)
  moreover have "(2::rat) powi (- ?k) = 1 / 2 ^ nat ?k"
    using k by (simp add: power_int_def field_simps)
  ultimately show ?thesis using False by (simp add: exponent_def)
qed

lemma round_half_even_err: "\<bar>of_int (round_half_even v) - v\<bar> \<le> 1 / 2"
proof -
  define f where "f = \<lfloor>v\<rfloor>"
  define d where "d = v - of_int f"
  have d: "0 \<le> d" "d < 1"
    unfolding d_def f_def by linarith+
  have v: "v = of_int f + d" by (simp add: d_def)
  have r: "round_half_even v =
      (if d < 1 / 2 then f else if 1 / 2 < d then f + 1 else if even f then f else f + 1)"
    by (simp add: round_half_even_def Let_def f_def d_def)
  have "\<bar>rat_of_int (if d < 1 / 2 then f else if 1 / 2 < d then f + 1 else if even f then f else f + 1)
          - (of_int f + d)\<bar> \<le> 1 / 2"
    using d by (auto simp add: abs_if)
  then show ?thesis
    unfolding r using v by simp
qed

lemma round64_err: "\<bar>round64 q - q\<bar> \<le> \<bar>q\<bar> / 2 ^ 53"
proof (cases "q = 0")
  case True
  then show ?thesis by (simp add: round64_def)
next
  case False
  define a where "a = \<bar>q\<bar>"
  define s :: rat where "s = 2 powi (exponent a - 52)"
  define m :: rat where "m = of_int (round_half_even (a / s))"
  have a: "0 < a" using False by (simp add: a_def)
  have s: "0 < s" by (simp add: s_def)
  have "s = 2 powi exponent a / 2 ^ 52"
    by (simp add: s_def power_int_diff)
  also have "\<dots> \<le> a / 2 ^ 52"
    using exponent_le [OF a] by (simp add: divide_right_mono)
  finally have sa: "s \<le> a / 2 ^ 52" .
  have r: "round64 q = sgn q * (m * s)"
    using False by (simp add: round64_def Let_def a_def s_def m_def)
  have q: "q = sgn q * a" by (simp add: a_def sgn_mult_abs)
  have "round64 q - q = sgn q * (m * s - a)"
    using r q by (metis right_diff_distrib)
  then have "\<bar>round64 q - q\<bar> = \<bar>m * s - a\<bar>"
    using False by (simp add: abs_mult abs_sgn_eq)
  also have "m * s - a = (m - a / s) * s"
    using s by (simp add: field_simps)
  also have "\<bar>(m - a / s) * s\<bar> = \<bar>m - a / s\<bar> * s"
    using s by (simp add: abs_mult)
  also have "\<dots> \<le> (1 / 2) * s"
    using round_half_even_err [of "a / s"] s by (simp add: m_def mult_right_mono)
  also have "\<dots> \<le> (1 / 2) * (a / 2 ^ 52)"
    using sa by simp
  also have "\<dots> = \<bar>q\<bar> / 2 ^ 53"
    by (simp add: a_def)
  finally show ?thesis .
qed

lemma round64_upper: "0 \<le> q \<Longrightarrow> round64 q \<le> q * (1 + 1 / 2 ^ 53)"
  using round64_err [of q] by (simp add: field_simps abs_if split: if_splits)

lemma round64_lower: "0 \<le> q \<Longrightarrow> q * (1 - 1 / 2 ^ 53) \<le> round64 q"
  using round64_err [of q] by (simp add: field_simps abs_if split: if_splits)

lemma round64_nonneg: "0 \<le> q \<Longrightarrow> 0 \<le> round64 q"
proof -
  assume q: "0 \<le> q"
  then have "0 \<le> q * (1 - 1 / 2 ^ 53)" by simp
  with round64_lower [OF q] show ?thesis by linarith
qed

lemma round64_pos: "0 < q \<Longrightarrow> 0 < round64 q"
proof -
  assume q: "0 < q"
  then have "0 < q * (1 - 1 / 2 ^ 53)" by simp
  with round64_lower [of q] q show ?thesis by linarith
qed

lemma round64_nonpos: "q \<le> 0 \<Longrightarrow> round64 q \<le> 0"
  using round64_err [of q] by (simp add: field_simps abs_if split: if_splits)

text \<open>
  Rounding into an image and back: a product \<open>imgW * scale\<close> whose scale is at most
  the rounded quotient \<open>maxW / imgW\<close>, for a printable width \<open>maxW\<close> rounded from at most
  \<open>Q\<close>, exceeds \<open>Q\<close> by less than \<open>2 ^ - 42\<close>; and a product whose scale is at least
  that quotient reaches \<open>maxW\<close> up to two roundings.
\<close>

lemma fit_bound:
  assumes imgW: "0 < imgW" and sc: "scale \<le> round64 (maxW / imgW)"
    and mw: "maxW = round64 A" and A: "A \<le> Q" and Q: "0 \<le> Q" "Q \<le> 2 ^ 9"
  shows "round64 (imgW * scale) \<le> Q + 1 / 2 ^ 42"
proof (cases "0 < scale")
  case False
  then have "imgW * scale \<le> 0"
    using imgW by (simp add: mult_le_0_iff)
  then have "round64 (imgW * scale) \<le> 0" by (rule round64_nonpos)
  with Q show ?thesis by simp
next
  case True
  define u :: rat where "u = 1 / 2 ^ 53"
  have u: "0 < u" "u \<le> 1 / 2 ^ 53" by (simp_all add: u_def)
  have wr: "0 < round64 (maxW / imgW)" using True sc by linarith
  have q: "0 < maxW / imgW"
  proof (rule ccontr)
    assume "\<not> 0 < maxW / imgW"
    then have "round64 (maxW / imgW) \<le> 0" by (intro round64_nonpos) simp
    with wr show False by linarith
  qed
  then have maxW: "0 < maxW" using imgW by (simp add: zero_less_divide_iff)
  have Apos: "0 < A"
  proof (rule ccontr)
    assume "\<not> 0 < A"
    then have "round64 A \<le> 0" by (intro round64_nonpos) simp
    with maxW mw show False by linarith
  qed
  have "maxW \<le> A * (1 + u)"
    unfolding mw u_def using Apos by (intro round64_upper) simp
  also have "\<dots> \<le> Q * (1 + u)"
    using A u by (intro mult_right_mono) simp_all
  finally have m1: "maxW \<le> Q * (1 + u)" .
  have "imgW * scale \<le> imgW * round64 (maxW / imgW)"
    using sc imgW by (intro mult_left_mono) simp_all
  also have "\<dots> \<le> imgW * (maxW / imgW * (1 + u))"
    unfolding u_def using q imgW round64_upper [of "maxW / imgW"] by (intro mult_left_mono) simp_all
  also have "\<dots> = maxW * (1 + u)"
    using imgW by simp
  finally have p1: "imgW * scale \<le> maxW * (1 + u)" .
  have pos: "0 \<le> imgW * scale" using True imgW by simp
  have "round64 (imgW * scale) \<le> imgW * scale * (1 + u)"
    unfolding u_def using pos by (rule round64_upper)
  also have "\<dots> \<le> maxW * (1 + u) * (1 + u)"
    using p1 u by (intro mult_right_mono) simp_all
  also have "\<dots> \<le> Q * (1 + u) * (1 + u) * (1 + u)"
    using m1 u by (intro mult_right_mono) simp_all
  also have "\<dots> = Q + Q * (u * (3 + 3 * u + u * u))"
    by (simp add: algebra_simps)
  also have "\<dots> \<le> Q + 2 ^ 9 * (u * 4)"
  proof -
    have "u \<le> 1 / 16" using u by simp
    have "3 + 3 * u + u * u \<le> 4"
    proof -
      have "u * u \<le> (1 / 16) * 1" using u by (intro mult_mono) simp_all
      with \<open>u \<le> 1 / 16\<close> show ?thesis by simp
    qed
    then have a: "u * (3 + 3 * u + u * u) \<le> u * 4"
      using u by (intro mult_left_mono) simp_all
    have b: "0 \<le> u * (3 + 3 * u + u * u)" using u by simp
    have "Q * (u * (3 + 3 * u + u * u)) \<le> 2 ^ 9 * (u * (3 + 3 * u + u * u))"
      using b Q by (intro mult_right_mono) simp_all
    also have "\<dots> \<le> 2 ^ 9 * (u * 4)"
      using a by (rule mult_left_mono) simp
    finally show ?thesis by simp
  qed
  also have "\<dots> \<le> Q + 1 / 2 ^ 42"
    using u by simp
  finally show ?thesis .
qed

lemma round64_ge_neg:
  assumes "0 \<le> c" and "- c \<le> q"
  shows "- (c * (1 + 1 / 2 ^ 53)) \<le> round64 q"
proof (cases "0 \<le> q")
  case True
  then have "0 \<le> round64 q" by (rule round64_nonneg)
  moreover have "0 \<le> c * (1 + 1 / 2 ^ 53)" using assms(1) by simp
  ultimately show ?thesis by linarith
next
  case False
  then have "q * (1 + 1 / 2 ^ 53) \<le> round64 q"
    using round64_err [of q] by (simp add: field_simps abs_if split: if_splits)
  moreover have "- c * (1 + 1 / 2 ^ 53) \<le> q * (1 + 1 / 2 ^ 53)"
    using assms(2) by (intro mult_right_mono) simp_all
  ultimately show ?thesis by simp
qed

lemma fill_covers:
  assumes imgW: "0 < imgW" and maxW: "0 \<le> maxW" and sc: "round64 (maxW / imgW) \<le> scale"
  shows "maxW * (1 - 1 / 2 ^ 52) \<le> round64 (imgW * scale)"
proof -
  define u :: rat where "u = 1 / 2 ^ 53"
  have u: "0 < u" "u < 1" by (simp_all add: u_def)
  have q: "0 \<le> maxW / imgW" using imgW maxW by simp
  have "maxW / imgW * (1 - u) \<le> round64 (maxW / imgW)"
    unfolding u_def using q by (rule round64_lower)
  also have "\<dots> \<le> scale" by (rule sc)
  finally have s1: "maxW / imgW * (1 - u) \<le> scale" .
  have "maxW * (1 - u) = imgW * (maxW / imgW * (1 - u))"
    using imgW by simp
  also have "\<dots> \<le> imgW * scale"
    using s1 imgW by (intro mult_left_mono) simp_all
  finally have p1: "maxW * (1 - u) \<le> imgW * scale" .
  have "0 \<le> maxW * (1 - u)" using maxW u by simp
  with p1 have pos: "0 \<le> imgW * scale" by linarith
  have "maxW * (1 - 1 / 2 ^ 52) = maxW * (1 - 2 * u)"
    by (simp add: u_def)
  also have "\<dots> \<le> maxW * ((1 - u) * (1 - u))"
  proof -
    have "1 - 2 * u \<le> (1 - u) * (1 - u)" by (simp add: algebra_simps)
    then show ?thesis using maxW by (intro mult_left_mono) simp_all
  qed
  also have "\<dots> = maxW * (1 - u) * (1 - u)" by simp
  also have "\<dots> \<le> imgW * scale * (1 - u)"
    using p1 u by (intro mult_right_mono) simp_all
  also have "\<dots> \<le> round64 (imgW * scale)"
    unfolding u_def using pos by (rule round64_lower)
  finally show ?thesis .
qed


lemma js_fit_bound:
  assumes "0 < imgW" and "scale \<le> js_div maxW imgW" and "maxW = js_sub P M"
    and "c \<le> M" and "0 \<le> P - c" and "P - c \<le> 2 ^ 9"
  shows "js_mul imgW scale \<le> P - c + 1 / 2 ^ 42"
  unfolding js_mul_def
proof (rule fit_bound)
  show "0 < imgW" by (rule assms(1))
  show "scale \<le> round64 (maxW / imgW)" using assms(2) by (simp add: js_div_def)
  show "maxW = round64 (P - M)" using assms(3) by (simp add: js_sub_def)
  show "P - M \<le> P - c" using assms(4) by simp
  show "0 \<le> P - c" "P - c \<le> 2 ^ 9" by (rule assms(5), rule assms(6))
qed

lemma js_fill_covers:
  assumes "0 < imgW" and "0 \<le> maxW" and "js_div maxW imgW \<le> scale"
  shows "maxW * (1 - 1 / 2 ^ 52) \<le> js_mul imgW scale"
  unfolding js_mul_def using assms by (intro fill_covers) (simp_all add: js_div_def)

section \<open>Properties of the layout\<close>

lemma js_lit_values:
  "js_lit 210 = 210" "js_lit 297 = 297" "js_lit 420 = 420" "js_lit 96 = 96"
  "js_lit 215.9 = 7596305933978829 / 35184372088832"
  "js_lit 279.4 = 2457628390404915 / 8796093022208"
  "js_lit 355.6 = 3127890678697165 / 8796093022208"
  "js_lit 25.4 = 3574732204225331 / 140737488355328"
  "js_lit (1397 / 5) = 2457628390404915 / 8796093022208"
  "js_lit (1778 / 5) = 3127890678697165 / 8796093022208"
  by code_simp+

lemma pxToMm_value: "pxToMm = 4766309605633775 / 18014398509481984"
  by code_simp

lemma pxToMm_pos: "0 < pxToMm"
  by (simp add: pxToMm_value)

lemma pageWidth_bounds: "210 \<le> pageWidth ps ori \<and> pageWidth ps ori \<le> 420"
  by (cases ps; simp add: pageWidth_def js_lit_values)

lemma pageHeight_bounds: "210 \<le> pageHeight ps ori \<and> pageHeight ps ori \<le> 420"
  by (cases ps; simp add: pageHeight_def js_lit_values)

lemma image_mm_pos: "0 < n \<Longrightarrow> 0 < js_mul (of_nat n) pxToMm"
  unfolding js_mul_def using pxToMm_pos by (intro round64_pos) simp

lemma place_defined:
  "0 < wpx \<Longrightarrow> 0 < hpx \<Longrightarrow> \<exists>r. place policy pw ph m wpx hpx = Inr r"
  by (cases policy) (simp_all add: place_def Let_def split: prod.splits)

lemma coordinate_nonneg: "fw \<le> p \<Longrightarrow> 0 \<le> js_div (js_sub p fw) 2"
  unfolding js_div_def js_sub_def by (intro round64_nonneg divide_nonneg_nonneg) simp_all

lemma coordinate_lower:
  assumes "fw \<le> p + 1 / 2 ^ 42"
  shows "- (1 / 2 ^ 42) \<le> js_div (js_sub p fw) 2"
proof -
  have "- (1 / 2 ^ 42) \<le> p - fw" using assms by simp
  then have "- (1 / 2 ^ 42 * (1 + 1 / 2 ^ 53)) \<le> round64 (p - fw)"
    by (intro round64_ge_neg) simp_all
  then have "- (1 / 2 ^ 43 * (1 + 1 / 2 ^ 53)) \<le> round64 (p - fw) / 2"
    by simp
  then have "- (1 / 2 ^ 43 * (1 + 1 / 2 ^ 53) * (1 + 1 / 2 ^ 53)) \<le> round64 (round64 (p - fw) / 2)"
    by (intro round64_ge_neg) simp_all
  then show ?thesis
    by (simp add: js_div_def js_sub_def)
qed

text \<open>The layouts that are evaluated below, step by step as the source computes them.\<close>

lemma place_fit_margin0:
  "place fit 210 297 0 1280 720 =
     Inr \<lparr> rx = - (1 / 70368744177664), ry = 1431 / 16,
           finalW = 7388718138654721 / 35184372088832, finalH = 945 / 8 \<rparr>"
proof -
  have maxW: "js_sub 210 (js_mul 0 2) = 210"
    by code_simp
  have maxH: "js_sub 297 (js_mul 0 2) = 297"
    by code_simp
  have iw: "js_mul 1280 (4766309605633775 / 18014398509481984) = 5957887007042219 / 17592186044416"
    by code_simp
  have ih: "js_mul 720 (4766309605633775 / 18014398509481984) = 381 / 2"
    by code_simp
  have wr: "js_div 210 (5957887007042219 / 17592186044416) = 2792586383113595 / 4503599627370496"
    by code_simp
  have hr: "js_div 297 (381 / 2) = 1755340012242831 / 1125899906842624"
    by code_simp
  have fw: "js_mul (5957887007042219 / 17592186044416) (2792586383113595 / 4503599627370496) = 7388718138654721 / 35184372088832"
    by code_simp
  have fh: "js_mul (381 / 2) (2792586383113595 / 4503599627370496) = 945 / 8"
    by code_simp
  have x: "js_div (js_sub 210 (7388718138654721 / 35184372088832)) 2 = - (1 / 70368744177664)"
    by code_simp
  have y: "js_div (js_sub 297 (945 / 8)) 2 = 1431 / 16"
    by code_simp
  show ?thesis
    by (simp add: place_def Let_def fitRatio_def fillRatio_def pxToMm_value
        maxW maxH iw ih wr hr fw fh x y)
qed

lemma place_fit_scenario:
  "place fit 210 297 10 960 1280 =
     Inr \<lparr> rx = 10, ry = 1536384247878997 / 70368744177664,
           finalW = 190, finalH = 8913374262504107 / 35184372088832 \<rparr>"
proof -
  have maxW: "js_sub 210 (js_mul 10 2) = 190"
    by code_simp
  have maxH: "js_sub 297 (js_mul 10 2) = 277"
    by code_simp
  have iw: "js_mul 960 (4766309605633775 / 18014398509481984) = 254"
    by code_simp
  have ih: "js_mul 1280 (4766309605633775 / 18014398509481984) = 5957887007042219 / 17592186044416"
    by code_simp
  have wr: "js_div 190 254 = 1684417183465343 / 2251799813685248"
    by code_simp
  have hr: "js_div 277 (5957887007042219 / 17592186044416) = 7367108839261579 / 9007199254740992"
    by code_simp
  have fw: "js_mul 254 (1684417183465343 / 2251799813685248) = 190"
    by code_simp
  have fh: "js_mul (5957887007042219 / 17592186044416) (1684417183465343 / 2251799813685248) = 8913374262504107 / 35184372088832"
    by code_simp
  have x: "js_div (js_sub 210 190) 2 = 10"
    by code_simp
  have y: "js_div (js_sub 297 (8913374262504107 / 35184372088832)) 2 = 1536384247878997 / 70368744177664"
    by code_simp
  show ?thesis
    by (simp add: place_def Let_def fitRatio_def fillRatio_def pxToMm_value
        maxW maxH iw ih wr hr fw fh x y)
qed

lemma place_fill_short:
  "place fill 210 297 10 70 600 =
     Inr \<lparr> rx = 703687441776641 / 70368744177664, ry = - (1464078268928585 / 2199023255552),
           finalW = 6685030696878079 / 35184372088832, finalH = 1790633222378057 / 1099511627776 \<rparr>"
proof -
  have maxW: "js_sub 210 (js_mul 10 2) = 190"
    by code_simp
  have maxH: "js_sub 297 (js_mul 10 2) = 277"
    by code_simp
  have iw: "js_mul 70 (4766309605633775 / 18014398509481984) = 5213151131161941 / 281474976710656"
    by code_simp
  have ih: "js_mul 600 (4766309605633775 / 18014398509481984) = 635 / 4"
    by code_simp
  have wr: "js_div 190 (5213151131161941 / 281474976710656) = 5775144629024033 / 562949953421312"
    by code_simp
  have hr: "js_div 277 (635 / 4) = 1964562357136421 / 1125899906842624"
    by code_simp
  have fw: "js_mul (5213151131161941 / 281474976710656) (5775144629024033 / 562949953421312) = 6685030696878079 / 35184372088832"
    by code_simp
  have fh: "js_mul (635 / 4) (5775144629024033 / 562949953421312) = 1790633222378057 / 1099511627776"
    by code_simp
  have x: "js_div (js_sub 210 (6685030696878079 / 35184372088832)) 2 = 703687441776641 / 70368744177664"
    by code_simp
  have y: "js_div (js_sub 297 (1790633222378057 / 1099511627776)) 2 = - (1464078268928585 / 2199023255552)"
    by code_simp
  show ?thesis
    by (simp add: place_def Let_def fitRatio_def fillRatio_def pxToMm_value
        maxW maxH iw ih wr hr fw fh x y)
qed

lemma place_fill_square:
  "place fill 210 297 10 100 100 =
     Inr \<lparr> rx = - (67 / 2), ry = 10,
           finalW = 277, finalH = 277 \<rparr>"
proof -
  have maxW: "js_sub 210 (js_mul 10 2) = 190"
    by code_simp
  have maxH: "js_sub 297 (js_mul 10 2) = 277"
    by code_simp
  have iw: "js_mul 100 (4766309605633775 / 18014398509481984) = 7447358758802773 / 281474976710656"
    by code_simp
  have ih: "js_mul 100 (4766309605633775 / 18014398509481984) = 7447358758802773 / 281474976710656"
    by code_simp
  have wr: "js_div 190 (7447358758802773 / 281474976710656) = 8085202480633647 / 1125899906842624"
    by code_simp
  have hr: "js_div 277 (7447358758802773 / 281474976710656) = 368355441963079 / 35184372088832"
    by code_simp
  have fw: "js_mul (7447358758802773 / 281474976710656) (368355441963079 / 35184372088832) = 277"
    by code_simp
  have fh: "js_mul (7447358758802773 / 281474976710656) (368355441963079 / 35184372088832) = 277"
    by code_simp
  have x: "js_div (js_sub 210 277) 2 = - (67 / 2)"
    by code_simp
  have y: "js_div (js_sub 297 277) 2 = 10"
    by code_simp
  show ?thesis
    by (simp add: place_def Let_def fitRatio_def fillRatio_def pxToMm_value
        maxW maxH iw ih wr hr fw fh x y)
qed

text \<open>
  Claim C1, amended. With the sizing policy \<open>fit\<close>, for an image of positive pixel size,
  any page size and orientation and a margin between 0 and 50, the scale applied to the
  image is \<open>min (maxW / imgWmm, maxH / imgHmm, 1)\<close>, each quotient being the rounded
  quotient of doubles, which is at most 1, and the image is centred:
  \<open>x = (pageWidth - finalW) / 2\<close> and \<open>y = (pageHeight - finalH) / 2\<close>. Such a margin
  is at most half of each page dimension. Both coordinates are non-negative when the
  margin is at least 1; for a smaller margin they are at least \<open>- 2 ^ - 42\<close>, since the
  rounding can put \<open>finalW\<close> above the page width by that little.
\<close>

theorem fit_scale_and_centering:
  assumes "0 < wpx" and "0 < hpx" and "0 \<le> m" and "m \<le> 50"
  shows "let pw = pageWidth ps ori; ph = pageHeight ps ori;
             maxW = js_sub pw (js_mul m 2); maxH = js_sub ph (js_mul m 2);
             imgWmm = js_mul (of_nat wpx) (js_div (js_lit 25.4) (js_lit 96));
             imgHmm = js_mul (of_nat hpx) (js_div (js_lit 25.4) (js_lit 96));
             scale = min (min (js_div maxW imgWmm) (js_div maxH imgHmm)) 1
         in scale \<le> 1 \<and>
            (\<exists>r. place fit pw ph m wpx hpx = Inr r \<and>
               finalW r = js_mul imgWmm scale \<and> finalH r = js_mul imgHmm scale \<and>
               rx r = js_div (js_sub pw (finalW r)) 2 \<and>
               ry r = js_div (js_sub ph (finalH r)) 2 \<and>
               m \<le> pw / 2 \<and> m \<le> ph / 2 \<and>
               - (1 / 2 ^ 42) \<le> rx r \<and> - (1 / 2 ^ 42) \<le> ry r \<and>
               (1 \<le> m \<longrightarrow> 0 \<le> rx r \<and> 0 \<le> ry r))"
proof -
  let ?pw = "pageWidth ps ori" and ?ph = "pageHeight ps ori"
  let ?maxW = "js_sub ?pw (js_mul m 2)" and ?maxH = "js_sub ?ph (js_mul m 2)"
  let ?w = "js_mul (of_nat wpx) pxToMm" and ?h = "js_mul (of_nat hpx) pxToMm"
  let ?k = "fitRatio ?maxW ?maxH ?w ?h"
  have w: "0 < ?w" and h: "0 < ?h"
    using assms(1,2) by (simp_all add: image_mm_pos)
  have pw: "210 \<le> ?pw" "?pw \<le> 420" and ph: "210 \<le> ?ph" "?ph \<le> 420"
    using pageWidth_bounds [of ps ori] pageHeight_bounds [of ps ori] by simp_all
  have m0: "0 \<le> js_mul m 2"
    unfolding js_mul_def using assms(3) by (intro round64_nonneg) simp
  have m2: "1 \<le> js_mul m 2" if "1 \<le> m"
  proof -
    have "1 \<le> 1 * 2 * (1 - 1 / 2 ^ 53 :: rat)" by simp
    also have "\<dots> \<le> m * 2 * (1 - 1 / 2 ^ 53)"
      using that by (intro mult_right_mono) simp_all
    also have "\<dots> \<le> js_mul m 2"
      unfolding js_mul_def using that by (intro round64_lower) simp
    finally show ?thesis .
  qed
  have kw: "?k \<le> js_div ?maxW ?w" and kh: "?k \<le> js_div ?maxH ?h"
    by (simp_all add: fitRatio_def)
  have fw0: "js_mul ?w ?k \<le> ?pw + 1 / 2 ^ 42"
    using js_fit_bound [OF w kw refl m0] pw by simp
  have fh0: "js_mul ?h ?k \<le> ?ph + 1 / 2 ^ 42"
    using js_fit_bound [OF h kh refl m0] ph by simp
  have fw1: "js_mul ?w ?k \<le> ?pw" if "1 \<le> m"
    using js_fit_bound [OF w kw refl m2 [OF that]] pw by simp
  have fh1: "js_mul ?h ?k \<le> ?ph" if "1 \<le> m"
    using js_fit_bound [OF h kh refl m2 [OF that]] ph by simp
  have x0: "- (1 / 2 ^ 42) \<le> js_div (js_sub ?pw (js_mul ?w ?k)) 2"
    using fw0 by (rule coordinate_lower)
  have y0: "- (1 / 2 ^ 42) \<le> js_div (js_sub ?ph (js_mul ?h ?k)) 2"
    using fh0 by (rule coordinate_lower)
  have x1: "0 \<le> js_div (js_sub ?pw (js_mul ?w ?k)) 2" if "1 \<le> m"
    using fw1 [OF that] by (rule coordinate_nonneg)
  have y1: "0 \<le> js_div (js_sub ?ph (js_mul ?h ?k)) 2" if "1 \<le> m"
    using fh1 [OF that] by (rule coordinate_nonneg)
  have half: "m \<le> ?pw / 2" "m \<le> ?ph / 2"
    using pw ph assms(4) by simp_all
  have k1: "?k \<le> 1" by (simp add: fitRatio_def)
  have pl: "place fit ?pw ?ph m wpx hpx =
      Inr \<lparr> rx = js_div (js_sub ?pw (js_mul ?w ?k)) 2, ry = js_div (js_sub ?ph (js_mul ?h ?k)) 2,
            finalW = js_mul ?w ?k, finalH = js_mul ?h ?k \<rparr>"
    using assms(1,2) by (simp add: place_def Let_def)
  show ?thesis
    unfolding Let_def pxToMm_def [symmetric] fitRatio_def [symmetric]
    using k1 pl x0 y0 x1 y1 half by simp
qed

text \<open>
  The scenario of the specification: a 960 by 1280 pixel image on an A4 portrait page
  with a 10 mm margin is 190 mm wide, 10 mm from the left edge.
\<close>

theorem fit_scale_and_centering_witness:
  "\<exists>r. place fit (pageWidth a4 portrait) (pageHeight a4 portrait) 10 960 1280 = Inr r \<and>
       finalW r = 190 \<and> rx r = 10 \<and> 0 \<le> ry r"
proof -
  have p: "pageWidth a4 portrait = 210" "pageHeight a4 portrait = 297"
    by (simp_all add: pageWidth_def pageHeight_def js_lit_values)
  show ?thesis
    using fit_scale_and_centering [of 960 1280 10 a4 portrait]
    by (auto simp add: Let_def p place_fit_scenario)
qed

text \<open>
  Claim C1 as stated fails at the margin 0, which lies in its range: for a 1280 by 720
  pixel image on an A4 portrait page the rounded width is above the 210 mm of the page
  and the horizontal coordinate is negative, \<open>- 2 ^ - 46\<close>.
\<close>

theorem fit_margin_zero_counterexample:
  "place fit (pageWidth a4 portrait) (pageHeight a4 portrait) 0 1280 720 =
     Inr \<lparr> rx = - (1 / 70368744177664), ry = 1431 / 16,
           finalW = 7388718138654721 / 35184372088832, finalH = 945 / 8 \<rparr> \<and>
   - (1 / 70368744177664) < (0 :: rat) \<and>
   pageWidth a4 portrait < 7388718138654721 / 35184372088832"
  by (simp add: pageWidth_def pageHeight_def js_lit_values place_fit_margin0)

text \<open>
  Claim C7, amended. With the sizing policy \<open>fill\<close>, for an image of positive pixel size
  and a positive printable area, the scale is \<open>max (maxW / imgWmm, maxH / imgHmm)\<close>, each
  quotient being the rounded quotient of doubles, and the placed size covers the
  printable area up to the rounding of the two operations: \<open>finalW \<ge> maxW * (1 - 2 ^ - 52)\<close>
  and \<open>finalH \<ge> maxH * (1 - 2 ^ - 52)\<close>. The image is centred on the page, and the
  pipeline clips nothing: the rectangle handed to \<^verbatim>\<open>addImage\<close> is this rectangle.
\<close>

theorem fill_covers_printable_area:
  assumes "0 < wpx" and "0 < hpx"
    and "0 < js_sub pw (js_mul m 2)" and "0 < js_sub ph (js_mul m 2)"
    and "readAsDataURL f = Some u" and "loadImage u = Some (wpx, hpx)"
  shows "let maxW = js_sub pw (js_mul m 2); maxH = js_sub ph (js_mul m 2);
             imgWmm = js_mul (of_nat wpx) (js_div (js_lit 25.4) (js_lit 96));
             imgHmm = js_mul (of_nat hpx) (js_div (js_lit 25.4) (js_lit 96));
             scale = max (js_div maxW imgWmm) (js_div maxH imgHmm)
         in \<exists>r. place fill pw ph m wpx hpx = Inr r \<and>
              finalW r = js_mul imgWmm scale \<and> finalH r = js_mul imgHmm scale \<and>
              maxW * (1 - 1 / 2 ^ 52) \<le> finalW r \<and> maxH * (1 - 1 / 2 ^ 52) \<le> finalH r \<and>
              rx r = js_div (js_sub pw (finalW r)) 2 \<and>
              ry r = js_div (js_sub ph (finalH r)) 2 \<and>
              render_loop readAsDataURL loadImage fill pw ph m 0 [f] (jsPDF (pw, ph) b) =
                Inr \<lparr> format = (pw, ph), landscape_doc = b,
                      pages = [[\<lparr> dataUrl = u, tag = typeTag (file_type f), box = r \<rparr>]] \<rparr>"
proof -
  let ?maxW = "js_sub pw (js_mul m 2)" and ?maxH = "js_sub ph (js_mul m 2)"
  let ?w = "js_mul (of_nat wpx) pxToMm" and ?h = "js_mul (of_nat hpx) pxToMm"
  let ?k = "fillRatio ?maxW ?maxH ?w ?h"
  let ?r = "\<lparr> rx = js_div (js_sub pw (js_mul ?w ?k)) 2, ry = js_div (js_sub ph (js_mul ?h ?k)) 2,
             finalW = js_mul ?w ?k, finalH = js_mul ?h ?k \<rparr>"
  have w: "0 < ?w" and h: "0 < ?h"
    using assms(1,2) by (simp_all add: image_mm_pos)
  have kw: "js_div ?maxW ?w \<le> ?k" and kh: "js_div ?maxH ?h \<le> ?k"
    by (simp_all add: fillRatio_def)
  have fw: "?maxW * (1 - 1 / 2 ^ 52) \<le> js_mul ?w ?k"
    using w _ kw by (rule js_fill_covers) (use assms(3) in simp)
  have fh: "?maxH * (1 - 1 / 2 ^ 52) \<le> js_mul ?h ?k"
    using h _ kh by (rule js_fill_covers) (use assms(4) in simp)
  have pl: "place fill pw ph m wpx hpx = Inr ?r"
    using assms(1,2) by (simp add: place_def Let_def)
  have loop: "render_loop readAsDataURL loadImage fill pw ph m 0 [f] (jsPDF (pw, ph) b) =
      Inr \<lparr> format = (pw, ph), landscape_doc = b,
            pages = [[\<lparr> dataUrl = u, tag = typeTag (file_type f), box = ?r \<rparr>]] \<rparr>"
    using assms(5,6) pl by (simp add: Let_def jsPDF_def addImage_def)
  show ?thesis
    unfolding Let_def pxToMm_def [symmetric] fillRatio_def [symmetric]
    using pl fw fh loop by simp
qed

text \<open>
  A square image of 100 pixels on an A4 portrait page with a 10 mm margin is scaled to
  277 mm on both sides: it covers the 190 mm of printable width and overflows the page.
\<close>

theorem fill_covers_printable_area_witness:
  "\<exists>r. place fill 210 297 10 100 100 = Inr r \<and>
       finalW r = 277 \<and> finalH r = 277 \<and> 190 * (1 - 1 / 2 ^ 52) \<le> finalW r \<and>
       rx r = - (67 / 2) \<and> ry r = 10"
proof -
  have a: "js_sub 210 (js_mul 10 2) = 190" "js_sub 297 (js_mul 10 2) = 277"
    by code_simp+
  have h: "(0 :: rat) < js_sub 210 (js_mul 10 2)" "(0 :: rat) < js_sub 297 (js_mul 10 2)"
    by (simp_all add: a)
  show ?thesis
    using fill_covers_printable_area [of 100 100 210 10 297 "\<lambda>f. Some ''d''"
        "\<lparr> file_name = ''a'', file_type = ''image/png'', file_size = 1 \<rparr>" "''d''"
        "\<lambda>u. Some (100, 100)" False, OF _ _ h]
    by (auto simp add: Let_def a place_fill_square)
qed

text \<open>
  Claim C7 as stated fails: for a 70 by 600 pixel image on an A4 portrait page with the
  default margin of 10 mm the printable width is 190 mm and the rounded placed width is
  one unit in the last place below it.
\<close>

theorem fill_short_of_width_counterexample:
  "js_sub (pageWidth a4 portrait) (js_mul 10 2) = 190 \<and>
   place fill (pageWidth a4 portrait) (pageHeight a4 portrait) 10 70 600 =
     Inr \<lparr> rx = 703687441776641 / 70368744177664, ry = - (1464078268928585 / 2199023255552),
           finalW = 6685030696878079 / 35184372088832,
           finalH = 1790633222378057 / 1099511627776 \<rparr> \<and>
   6685030696878079 / 35184372088832 < (190 :: rat)"
proof -
  have a: "js_sub 210 (js_mul 10 2) = 190"
    by code_simp
  show ?thesis
    by (simp add: pageWidth_def pageHeight_def js_lit_values place_fill_short a)
qed


section \<open>Properties of the image-type tag\<close>

text \<open>
  Claim C9. For every accepted entry the tag handed to the encoder follows from the MIME
  type: \<open>image/png\<close> gives \<open>PNG\<close>, \<open>image/webp\<close> gives \<open>WEBP\<close>, \<open>image/jpeg\<close> gives \<open>JPEG\<close>,
  and \<open>image/gif\<close>, which has no tag of its own, falls through to \<open>JPEG\<close>.
\<close>

theorem typeTag_by_mime:
  assumes "accepted f"
  shows "typeTag (file_type f) =
     (if file_type f = ''image/png'' then ''PNG''
      else if file_type f = ''image/webp'' then ''WEBP''
      else if file_type f = ''image/jpeg'' then ''JPEG''
      else ''JPEG'') \<and>
     (file_type f = ''image/gif'' \<or> file_type f = ''image/jpeg'' \<or>
      file_type f = ''image/png'' \<or> file_type f = ''image/webp'')"
  using assms by (auto simp add: accepted_def typeTag_def)

theorem typeTag_by_mime_witness:
  "accepted \<lparr> file_name = ''c.gif'', file_type = ''image/gif'', file_size = 3 \<rparr> \<and>
   typeTag (file_type \<lparr> file_name = ''c.gif'', file_type = ''image/gif'', file_size = 3 \<rparr>) = ''JPEG''"
  using typeTag_by_mime [of "\<lparr> file_name = ''c.gif'', file_type = ''image/gif'', file_size = 3 \<rparr>"]
  by (simp add: accepted_def)


section \<open>Properties of document generation\<close>

text \<open>
  Claim C8. When \<^verbatim>\<open>generatePDF\<close> is invoked with no entries, no document is created, no
  file is saved, the session is unchanged, and the user is shown the notice of the empty
  selection.
\<close>

theorem generatePDF_empty:
  assumes "files st = []"
  shows "generatePDF readAsDataURL loadImage st =
     (st, \<lparr> alerts = [''Please select one or more image files.''], created = False, saved = None \<rparr>)"
  using assms by (simp add: generatePDF_def)

theorem generatePDF_empty_witness:
  "files initial = [] \<and>
   generatePDF (\<lambda>f. None) (\<lambda>u. None) initial =
     (initial, \<lparr> alerts = [''Please select one or more image files.''], created = False, saved = None \<rparr>)"
  using generatePDF_empty [of initial "\<lambda>f. None" "\<lambda>u. None"]
  by (simp add: initial_def)


section \<open>Properties of the session operations\<close>

lemma map_pfile_newPreviews: "map pfile (newPreviews ids u chosen) = chosen"
  by (induction chosen rule: rev_induct)
     (simp_all add: newPreviews_def enumerate_append_eq)

lemma map_name_newPreviews: "map name (newPreviews ids u chosen) = map file_name chosen"
  by (induction chosen rule: rev_induct)
     (simp_all add: newPreviews_def enumerate_append_eq)

lemma length_newPreviews: "length (newPreviews ids u chosen) = length chosen"
  by (simp add: newPreviews_def)

text \<open>
  Claim C4. For every list of candidate files and every session, adding the files appends
  exactly the files whose MIME type is \<open>image/jpeg\<close>, \<open>image/png\<close>, \<open>image/webp\<close> or
  \<open>image/gif\<close>, in their original order, after the existing entries, which stay as they
  are; the other files are dropped, and no error arises (the operation is total).
\<close>

theorem handleFiles_appends_accepted:
  "files (handleFiles ids fs st) = files st @ filter accepted fs \<and>
   map pfile (previews (handleFiles ids fs st)) = map pfile (previews st) @ filter accepted fs \<and>
   map name (previews (handleFiles ids fs st)) = map name (previews st) @ map file_name (filter accepted fs) \<and>
   take (length (previews st)) (previews (handleFiles ids fs st)) = previews st \<and>
   length (previews (handleFiles ids fs st)) = length (previews st) + length (filter accepted fs) \<and>
   filter accepted fs =
     filter (\<lambda>f. file_type f \<in> {''image/jpeg'', ''image/png'', ''image/webp'', ''image/gif''}) fs"
proof -
  have "accepted = (\<lambda>f. file_type f \<in> {''image/jpeg'', ''image/png'', ''image/webp'', ''image/gif''})"
    by (auto simp add: accepted_def fun_eq_iff)
  then show ?thesis
    by (simp add: handleFiles_def Let_def map_pfile_newPreviews map_name_newPreviews length_newPreviews)
qed

lemma filter_index_enumerate:
  "map snd (filter (\<lambda>(i, v). int i \<noteq> index) (enumerate n xs)) =
     (if int n \<le> index then take (nat index - n) xs @ drop (Suc (nat index - n)) xs else xs)"
proof (induction xs arbitrary: n)
  case Nil
  then show ?case by simp
next
  case (Cons a xs)
  show ?case
  proof (cases "int n = index")
    case True
    then have "map snd (filter (\<lambda>(i, v). int i \<noteq> index) (enumerate (Suc n) xs)) = xs"
      using Cons.IH [of "Suc n"] by simp
    with True show ?thesis by auto
  next
    case False
    show ?thesis
    proof (cases "int n < index")
      case True
      then have "nat index - n = Suc (nat index - Suc n)" by linarith
      with True False Cons.IH [of "Suc n"] show ?thesis by simp
    next
      case False2: False
      with False Cons.IH [of "Suc n"] show ?thesis by simp
    qed
  qed
qed

lemma filter_index_eq:
  "0 \<le> index \<Longrightarrow> filter_index index xs = take (nat index) xs @ drop (Suc (nat index)) xs"
  using filter_index_enumerate [of index 0 xs] by (simp add: filter_index_def)

lemma filter_index_neg: "index < 0 \<Longrightarrow> filter_index index xs = xs"
  using filter_index_enumerate [of index 0 xs] by (simp add: filter_index_def)

lemma map_filter_index: "map f (filter_index index xs) = filter_index index (map f xs)"
proof (cases "0 \<le> index")
  case True
  then show ?thesis by (simp add: filter_index_eq take_map drop_map)
next
  case False
  then show ?thesis by (simp add: filter_index_neg)
qed

text \<open>
  Claim C2, amended. \<^verbatim>\<open>removeImage\<close> does not validate its index. For an index within
  the preview list it releases exactly the handle of the entry at that index and removes
  that entry from both lists, the later entries moving one place to the left. For an
  index outside the list the read of \<^verbatim>\<open>previews[index].url\<close> throws a \<^verbatim>\<open>TypeError\<close>:
  the call does not return normally, and the session at the throw is the session before
  the call, with no handle released and neither list changed.
\<close>

theorem removeImage_valid_or_throws:
  "(0 \<le> index \<and> index < int (length (previews st)) \<longrightarrow>
      removeImage index st =
        Inr (st \<lparr> revoked := revoked st @ [url (previews st ! nat index)],
                  previews := take (nat index) (previews st) @ drop (Suc (nat index)) (previews st),
                  files := take (nat index) (files st) @ drop (Suc (nat index)) (files st) \<rparr>)) \<and>
   (\<not> (0 \<le> index \<and> index < int (length (previews st))) \<longrightarrow>
      removeImage index st = Inl (TypeError, st))"
  by (simp add: removeImage_def array_get_def filter_index_eq)

text \<open>The session of the scenario, written out.\<close>

lemma scenario_eq:
  "scenario = initial \<lparr> files := scenario_files,
      previews := [\<lparr> name = ''b.png'', url = 0, pfile = scenario_files ! 0, ident = ''id'' \<rparr>,
                   \<lparr> name = ''a.jpg'', url = 1, pfile = scenario_files ! 1, ident = ''id'' \<rparr>,
                   \<lparr> name = ''c.gif'', url = 2, pfile = scenario_files ! 2, ident = ''id'' \<rparr>],
      nextUrl := 3 \<rparr>"
  by (simp add: scenario_def handleFiles_def scenario_files_def initial_def accepted_def
      newPreviews_def Let_def enumerate_eq_zip upt_conv_Cons)

text \<open>
  Claim C2 as stated fails: on the three entries of the scenario, removing at index 3 is
  not a silent no-op that returns the unchanged session, it throws.
\<close>

theorem removeImage_out_of_range_counterexample:
  "length (previews scenario) = 3 \<and> removeImage 3 scenario = Inl (TypeError, scenario) \<and>
   removeImage 3 scenario \<noteq> Inr scenario"
  by (simp add: scenario_eq removeImage_def array_get_def)

theorem removeImage_valid_or_throws_witness:
  "removeImage 1 scenario =
     Inr (scenario \<lparr> revoked := [1],
            previews := [previews scenario ! 0, previews scenario ! 2],
            files := [scenario_files ! 0, scenario_files ! 2] \<rparr>) \<and>
   removeImage (- 1) scenario = Inl (TypeError, scenario)"
  using removeImage_valid_or_throws [of 1 scenario] removeImage_valid_or_throws [of "- 1" scenario]
  by (simp add: scenario_eq initial_def scenario_files_def)

lemma splice_start_valid: "i \<le> n \<Longrightarrow> splice_start (int i) n = i"
  by (simp add: splice_start_def)

lemma splice_remove1_valid:
  "i < length xs \<Longrightarrow>
     splice_remove1 (int i) xs = ([xs ! i], take i xs @ drop (Suc i) xs)"
  by (simp add: splice_remove1_def splice_start_valid Let_def take_Suc_conv_app_nth
      Cons_nth_drop_Suc [symmetric])

lemma splice_remove1_map:
  "splice_remove1 start (map f xs) =
     (map f (fst (splice_remove1 start xs)), map f (snd (splice_remove1 start xs)))"
  by (simp add: splice_remove1_def Let_def take_map drop_map)

lemma splice_insert_map:
  "splice_insert start (f v) (map f xs) = map f (splice_insert start v xs)"
  by (simp add: splice_insert_def Let_def take_map drop_map)

lemma splice_insert_valid:
  "j \<le> length xs \<Longrightarrow> splice_insert (int j) v xs = take j xs @ [v] @ drop j xs"
  by (simp add: splice_insert_def splice_start_valid Let_def)

lemma reorderImages_lockstep:
  assumes "lockstep st" and "reorderImages i j st = Inr st'"
  shows "lockstep st'"
proof -
  from assms(1) have f: "files st = map pfile (previews st)" by (simp add: lockstep_def)
  obtain rem rest where r: "splice_remove1 i (previews st) = (rem, rest)" by fastforce
  then have rf: "splice_remove1 i (files st) = (map pfile rem, map pfile rest)"
    by (simp add: f splice_remove1_map)
  from assms(2) r rf show ?thesis
    by (auto simp add: reorderImages_def lockstep_def splice_insert_map split: list.splits)
qed

lemma reorderImages_valid:
  assumes "i < length (previews st)" and "length (files st) = length (previews st)"
    and "j < length (previews st)"
  shows "reorderImages (int i) (int j) st =
     Inr (st \<lparr> previews := move_entry i j (previews st), files := move_entry i j (files st) \<rparr>)"
proof -
  have j: "j \<le> length (take i (previews st) @ drop (Suc i) (previews st))"
       "j \<le> length (take i (files st) @ drop (Suc i) (files st))"
    using assms by auto
  show ?thesis
    using assms(1,2)
    by (simp add: reorderImages_def splice_remove1_valid splice_insert_valid [OF j(1)]
        splice_insert_valid [OF j(2)] move_entry_def Let_def)
qed

lemma insert_at_props:
  assumes "j \<le> length rest"
  shows "length (take j rest @ [v] @ drop j rest) = Suc (length rest)"
    and "(take j rest @ [v] @ drop j rest) ! j = v"
    and "take j (take j rest @ [v] @ drop j rest) @ drop (Suc j) (take j rest @ [v] @ drop j rest) = rest"
    and "mset (take j rest @ [v] @ drop j rest) = add_mset v (mset rest)"
proof -
  have lt: "length (take j rest) = j" using assms by simp
  show "length (take j rest @ [v] @ drop j rest) = Suc (length rest)"
    using assms by simp
  show "(take j rest @ [v] @ drop j rest) ! j = v"
    using lt by (simp add: nth_append)
  show "take j (take j rest @ [v] @ drop j rest) @ drop (Suc j) (take j rest @ [v] @ drop j rest) = rest"
    using lt assms by simp
  have "mset (take j rest @ [v] @ drop j rest) = add_mset v (mset (take j rest @ drop j rest))"
    by (simp only: mset_append mset.simps) simp
  then show "mset (take j rest @ [v] @ drop j rest) = add_mset v (mset rest)"
    by (simp only: append_take_drop_id)
qed

lemma move_entry_props:
  assumes "i < length xs" and "j < length xs"
  shows "length (move_entry i j xs) = length xs"
    and "move_entry i j xs ! j = xs ! i"
    and "take j (move_entry i j xs) @ drop (Suc j) (move_entry i j xs) = take i xs @ drop (Suc i) xs"
    and "mset (move_entry i j xs) = mset xs"
proof -
  define rest where "rest = take i xs @ drop (Suc i) xs"
  have len: "Suc (length rest) = length xs" using assms(1) by (auto simp add: rest_def)
  then have j: "j \<le> length rest" using assms(2) by linarith
  have m: "move_entry i j xs = take j rest @ [xs ! i] @ drop j rest"
    by (simp add: move_entry_def Let_def rest_def)
  have "xs = take i xs @ xs ! i # drop (Suc i) xs"
    using assms(1) by (rule id_take_nth_drop)
  then have "mset xs = mset (take i xs @ xs ! i # drop (Suc i) xs)" by simp
  then have ms: "mset xs = add_mset (xs ! i) (mset rest)"
    by (simp add: rest_def)
  show "length (move_entry i j xs) = length xs"
    unfolding m using insert_at_props(1) [OF j] len by simp
  show "move_entry i j xs ! j = xs ! i"
    unfolding m using insert_at_props(2) [OF j] by simp
  show "take j (move_entry i j xs) @ drop (Suc j) (move_entry i j xs) = take i xs @ drop (Suc i) xs"
    unfolding m using insert_at_props(3) [OF j] by (simp add: rest_def)
  show "mset (move_entry i j xs) = mset xs"
    unfolding m using insert_at_props(4) [OF j] ms by simp
qed

text \<open>
  Claim C6. For every session whose lists are in lockstep, with \<open>n\<close> entries, and all
  positions \<open>i, j < n\<close>, \<^verbatim>\<open>reorderImages(i, j)\<close> yields exactly the sequence obtained by
  taking the element at position \<open>i\<close> out and putting it back at position \<open>j\<close> (a move,
  not a swap): the length is unchanged, the moved element is at position \<open>j\<close>, and the
  other elements are the same ones in the same order.
\<close>

theorem reorderImages_moves:
  assumes "lockstep st" and "i < length (previews st)" and "j < length (previews st)"
  shows "\<exists>st'. reorderImages (int i) (int j) st = Inr st' \<and>
           previews st' = move_entry i j (previews st) \<and>
           files st' = move_entry i j (files st) \<and>
           length (previews st') = length (previews st) \<and>
           previews st' ! j = previews st ! i \<and>
           take j (previews st') @ drop (Suc j) (previews st') =
             take i (previews st) @ drop (Suc i) (previews st) \<and>
           mset (previews st') = mset (previews st)"
proof -
  from assms(1) have "length (files st) = length (previews st)"
    by (metis lockstep_def length_map)
  then have "reorderImages (int i) (int j) st =
     Inr (st \<lparr> previews := move_entry i j (previews st), files := move_entry i j (files st) \<rparr>)"
    using assms(2,3) by (simp add: reorderImages_valid)
  then show ?thesis
    using move_entry_props [OF assms(2,3)] by simp
qed

lemma lockstep_scenario: "lockstep scenario"
  by (simp add: scenario_eq lockstep_def scenario_files_def)

theorem reorderImages_moves_witness:
  "lockstep scenario \<and> 2 < length (previews scenario) \<and> 0 < length (previews scenario) \<and>
   (\<exists>st'. reorderImages 2 0 scenario = Inr st' \<and>
      map name (previews st') = [''c.gif'', ''b.png'', ''a.jpg''] \<and>
      map file_name (files st') = [''c.gif'', ''b.png'', ''a.jpg''])"
  using reorderImages_moves [of scenario 2 0] lockstep_scenario
  by (auto simp add: scenario_eq move_entry_def scenario_files_def)

lemma lockstep_nth:
  "lockstep s = (length (previews s) = length (files s) \<and>
     (\<forall>k<length (previews s). pfile (previews s ! k) = files s ! k))"
  by (auto simp add: lockstep_def list_eq_iff_nth_eq)

lemma perform_creates:
  "foldl (\<lambda>s c. perform c s) st (replicate n CreateObjectURL) = st \<lparr> nextUrl := nextUrl st + n \<rparr>"
  by (induction n arbitrary: st) simp_all

lemma perform_revokes:
  "foldl (\<lambda>s c. perform c s) st (map (\<lambda>p. RevokeObjectURL (url p)) ps) =
     st \<lparr> revoked := revoked st @ map url ps \<rparr>"
  by (induction ps arbitrary: st) simp_all

lemma commit_handleFiles: "commit (handleFiles_calls ids fs st) st = handleFiles ids fs st"
  by (simp add: commit_def handleFiles_calls_def handleFiles_def Let_def perform_creates)

lemma commit_clear: "commit (clear_calls st) st = clear st"
  by (simp add: commit_def clear_calls_def clear_def perform_revokes)

lemma commit_sortImages: "commit (sortImages_calls lc st) st = sortImages lc st"
  by (simp add: commit_def sortImages_calls_def sortImages_def Let_def)

lemma commit_removeImage:
  "removeImage_calls index st = Inr cs \<Longrightarrow> removeImage index st = Inr (commit cs st)"
  by (auto simp add: commit_def removeImage_calls_def removeImage_def split: option.splits)

lemma throw_removeImage:
  "removeImage_calls index st = Inl e \<Longrightarrow> removeImage index st = Inl (e, st)"
  by (auto simp add: removeImage_calls_def removeImage_def split: option.splits)

lemma commit_reorderImages:
  "reorderImages_calls i j st = Inr cs \<Longrightarrow> reorderImages i j st = Inr (commit cs st)"
  by (auto simp add: commit_def reorderImages_calls_def reorderImages_def split: prod.splits list.splits)

lemma throw_reorderImages:
  "reorderImages_calls i j st = Inl e \<Longrightarrow> reorderImages i j st = Inl e"
  by (auto simp add: reorderImages_calls_def reorderImages_def split: prod.splits list.splits)

lemma filter_replicate_create:
  "filter sets_files (replicate n CreateObjectURL) = []"
  "filter sets_previews (replicate n CreateObjectURL) = []"
  by (induction n) simp_all

lemma filter_map_revoke:
  "filter sets_files (map (\<lambda>p. RevokeObjectURL (url p)) ps) = []"
  "filter sets_previews (map (\<lambda>p. RevokeObjectURL (url p)) ps) = []"
  by (induction ps) simp_all

lemma updates_both_handleFiles: "updates_both (handleFiles_calls ids fs st)"
  by (simp add: updates_both_def handleFiles_calls_def Let_def filter_replicate_create)

lemma updates_both_clear: "updates_both (clear_calls st)"
  by (simp add: updates_both_def clear_calls_def filter_map_revoke)

lemma updates_both_sortImages: "updates_both (sortImages_calls lc st)"
  by (simp add: updates_both_def sortImages_calls_def Let_def)

lemma updates_both_removeImage: "removeImage_calls index st = Inr cs \<Longrightarrow> updates_both cs"
  by (auto simp add: updates_both_def removeImage_calls_def split: option.splits)

lemma updates_both_reorderImages: "reorderImages_calls i j st = Inr cs \<Longrightarrow> updates_both cs"
  by (auto simp add: updates_both_def reorderImages_calls_def split: prod.splits list.splits)

lemma reorder_raw_map:
  "reorder_raw i j (map f xs) = map (map_option f) (reorder_raw i j xs)"
proof -
  obtain removed rest where r: "splice_remove1 i xs = (removed, rest)" by fastforce
  then have "splice_remove1 i (map f xs) = (map f removed, map f rest)"
    by (simp add: splice_remove1_map)
  with r show ?thesis
    by (cases removed)
       (simp_all add: reorder_raw_def splice_insert_map [symmetric] comp_def)
qed

lemma reorder_raw_defined:
  "reorderImages i j st = Inr st' \<Longrightarrow> map Some (previews st') = reorder_raw i j (previews st)"
  by (auto simp add: reorderImages_def reorder_raw_def splice_insert_map [symmetric]
      split: prod.splits list.splits)

lemma reorder_raw_undefined:
  "lockstep st \<Longrightarrow> reorderImages i j st = Inl e \<Longrightarrow>
     e = UndefinedEntry \<and> None \<in> set (reorder_raw i j (previews st))"
proof -
  assume l: "lockstep st" and e: "reorderImages i j st = Inl e"
  obtain removed rest where r: "splice_remove1 i (previews st) = (removed, rest)" by fastforce
  from l have "files st = map pfile (previews st)" by (simp add: lockstep_def)
  then have rf: "splice_remove1 i (files st) = (map pfile removed, map pfile rest)"
    using r by (simp add: splice_remove1_map)
  from e r rf have "removed = [] \<and> e = UndefinedEntry"
    by (cases removed) (auto simp add: reorderImages_def)
  then show ?thesis
    using r by (simp add: reorder_raw_def splice_insert_def Let_def)
qed

text \<open>
  Claim C10. The preview list and the raw-file list stay in lockstep: they have the same
  length and the file of the \<open>i\<close>-th preview is the \<open>i\<close>-th raw file (the last conjunct).
  Each operation of the session (add, remove at a valid index, reorder, sort, clear) is
  one transition: the run of its handler calls each of the two list setters exactly once
  (\<open>updates_both\<close>), the transition is the effect of the calls of that run (\<open>commit\<close>),
  and it takes a session in lockstep to a session in lockstep. For a reorder this holds
  for every pair of indices: both arrays are rearranged alike, also when the from-index
  meets no element and \<^verbatim>\<open>undefined\<close> is inserted into both.
\<close>

theorem lockstep_preserved:
  assumes "lockstep st"
  shows "(handleFiles ids fs st = commit (handleFiles_calls ids fs st) st \<and>
          updates_both (handleFiles_calls ids fs st) \<and> lockstep (handleFiles ids fs st)) \<and>
     (clear st = commit (clear_calls st) st \<and>
          updates_both (clear_calls st) \<and> lockstep (clear st)) \<and>
     (sortImages localeCompare st = commit (sortImages_calls localeCompare st) st \<and>
          updates_both (sortImages_calls localeCompare st) \<and>
          lockstep (sortImages localeCompare st)) \<and>
     (0 \<le> index \<and> index < int (length (previews st)) \<longrightarrow>
        (\<exists>cs. removeImage_calls index st = Inr cs \<and> updates_both cs \<and>
              removeImage index st = Inr (commit cs st) \<and> lockstep (commit cs st))) \<and>
     map (map_option pfile) (reorder_raw i j (previews st)) = reorder_raw i j (files st) \<and>
     (case reorderImages_calls i j st of
        Inr cs \<Rightarrow> updates_both cs \<and> reorderImages i j st = Inr (commit cs st) \<and>
                 lockstep (commit cs st) \<and>
                 map Some (previews (commit cs st)) = reorder_raw i j (previews st)
      | Inl e \<Rightarrow> reorderImages i j st = Inl e \<and>
                 None \<in> set (reorder_raw i j (previews st))) \<and>
     (\<forall>s. lockstep s = (length (previews s) = length (files s) \<and>
        (\<forall>k<length (previews s). pfile (previews s ! k) = files s ! k)))"
proof -
  from assms have f: "files st = map pfile (previews st)" by (simp add: lockstep_def)
  have add: "lockstep (handleFiles ids fs st)"
    by (simp add: lockstep_def handleFiles_def Let_def map_pfile_newPreviews f)
  have clr: "lockstep (clear st)"
    by (simp add: lockstep_def clear_def)
  have srt: "lockstep (sortImages localeCompare st)"
    by (simp add: lockstep_def sortImages_def Let_def)
  have rem: "\<exists>cs. removeImage_calls index st = Inr cs \<and> updates_both cs \<and>
        removeImage index st = Inr (commit cs st) \<and> lockstep (commit cs st)"
    if "0 \<le> index \<and> index < int (length (previews st))"
  proof -
    from that obtain cs where cs: "removeImage_calls index st = Inr cs"
      by (simp add: removeImage_calls_def array_get_def)
    then have r: "removeImage index st = Inr (commit cs st)" by (rule commit_removeImage)
    moreover have "removeImage index st =
        Inr (st \<lparr> revoked := revoked st @ [url (previews st ! nat index)],
                  previews := filter_index index (previews st),
                  files := filter_index index (files st) \<rparr>)"
      using that by (simp add: removeImage_def array_get_def)
    ultimately have "commit cs st =
        st \<lparr> revoked := revoked st @ [url (previews st ! nat index)],
             previews := filter_index index (previews st),
             files := filter_index index (files st) \<rparr>"
      by simp
    then have "lockstep (commit cs st)"
      by (simp add: lockstep_def f map_filter_index)
    with cs r show ?thesis using updates_both_removeImage by blast
  qed
  have raw: "map (map_option pfile) (reorder_raw i j (previews st)) = reorder_raw i j (files st)"
    by (simp add: f reorder_raw_map)
  have reo: "case reorderImages_calls i j st of
        Inr cs \<Rightarrow> updates_both cs \<and> reorderImages i j st = Inr (commit cs st) \<and>
                 lockstep (commit cs st) \<and>
                 map Some (previews (commit cs st)) = reorder_raw i j (previews st)
      | Inl e \<Rightarrow> reorderImages i j st = Inl e \<and>
                 None \<in> set (reorder_raw i j (previews st))"
  proof (cases "reorderImages_calls i j st")
    case (Inl e)
    then have "reorderImages i j st = Inl e" by (rule throw_reorderImages)
    with Inl assms show ?thesis using reorder_raw_undefined by simp
  next
    case (Inr cs)
    then have r: "reorderImages i j st = Inr (commit cs st)" by (rule commit_reorderImages)
    with assms have "lockstep (commit cs st)" by (rule reorderImages_lockstep)
    with Inr r show ?thesis
      using updates_both_reorderImages [OF Inr] reorder_raw_defined [OF r] by simp
  qed
  show ?thesis
    using add clr srt rem raw reo lockstep_nth
      commit_handleFiles [of ids fs st] commit_clear [of st] commit_sortImages [of localeCompare st]
      updates_both_handleFiles [of ids fs st] updates_both_clear [of st]
      updates_both_sortImages [of localeCompare st]
    by (intro conjI allI impI) simp_all
qed

theorem lockstep_preserved_witness:
  "lockstep scenario \<and>
   lockstep (handleFiles (\<lambda>k. ''n'') scenario_files scenario) \<and>
   lockstep (clear scenario) \<and>
   lockstep (sortImages name_compare scenario) \<and>
   (\<exists>cs. removeImage_calls 1 scenario = Inr cs \<and> updates_both cs \<and>
      removeImage 1 scenario = Inr (commit cs scenario) \<and> lockstep (commit cs scenario)) \<and>
   (\<exists>st'. reorderImages 2 0 scenario = Inr st' \<and> lockstep st') \<and>
   reorder_raw 3 1 (files scenario) =
     [Some (scenario_files ! 0), None, Some (scenario_files ! 1), Some (scenario_files ! 2)] \<and>
   map (map_option pfile) (reorder_raw 3 1 (previews scenario)) = reorder_raw 3 1 (files scenario)"
proof -
  have len: "length (previews scenario) = 3"
    by (simp add: scenario_eq)
  then have a: "(0::int) \<le> 1 \<and> 1 < int (length (previews scenario))"
    by simp
  note t = lockstep_preserved [OF lockstep_scenario, of "\<lambda>k. ''n''" scenario_files name_compare 1]
  obtain cs where cs: "reorderImages_calls 2 0 scenario = Inr cs"
    by (simp add: scenario_eq scenario_files_def reorderImages_calls_def splice_remove1_def
        splice_start_def)
  have r1: "\<exists>st'. reorderImages 2 0 scenario = Inr st' \<and> lockstep st'"
    using t [of 2 0, THEN conjunct2, THEN conjunct2, THEN conjunct2, THEN conjunct2,
        THEN conjunct2, THEN conjunct1] cs
    by simp
  have r2: "reorder_raw 3 1 (files scenario) =
      [Some (scenario_files ! 0), None, Some (scenario_files ! 1), Some (scenario_files ! 2)]"
    by (simp add: scenario_eq reorder_raw_def splice_remove1_def splice_insert_def
        splice_start_def scenario_files_def)
  show ?thesis
    using t [of 3 1] lockstep_scenario a r1 r2 by blast
qed


section \<open>Properties of the page loop\<close>

lemma entry_page_decodes:
  assumes "decodes rd li f"
  shows "\<exists>u wpx hpx r. rd f = Some u \<and> li u = Some (wpx, hpx) \<and>
     place policy pw ph m wpx hpx = Inr r \<and>
     entry_page rd li policy pw ph m f =
       [\<lparr> dataUrl = u, tag = typeTag (file_type f), box = r \<rparr>]"
proof -
  from assms obtain u wpx hpx where u: "rd f = Some u" "li u = Some (wpx, hpx)"
    and pos: "0 < wpx" "0 < hpx"
    by (auto simp add: decodes_def split: option.splits)
  from pos obtain r where "place policy pw ph m wpx hpx = Inr r"
    using place_defined by blast
  with u show ?thesis by (simp add: entry_page_def)
qed

lemma addImage_last:
  "pages d = ps @ [p] \<Longrightarrow> addImage img d = d \<lparr> pages := ps @ [p @ [img]] \<rparr>"
  by (simp add: addImage_def)

lemma render_loop_later:
  assumes "\<forall>f\<in>set fs. decodes rd li f" and "0 < i"
  shows "render_loop rd li policy pw ph m i fs d =
     Inr (d \<lparr> pages := pages d @ map (entry_page rd li policy pw ph m) fs \<rparr>)"
  using assms
proof (induction fs arbitrary: i d)
  case Nil
  then show ?case by simp
next
  case (Cons f fs)
  from Cons.prems obtain u wpx hpx r where u: "rd f = Some u" "li u = Some (wpx, hpx)"
    and r: "place policy pw ph m wpx hpx = Inr r"
    and e: "entry_page rd li policy pw ph m f =
       [\<lparr> dataUrl = u, tag = typeTag (file_type f), box = r \<rparr>]"
    using entry_page_decodes [of rd li f policy pw ph m] by auto
  let ?img = "\<lparr> dataUrl = u, tag = typeTag (file_type f), box = r \<rparr>"
  have a: "addImage ?img (addPage d) = d \<lparr> pages := pages d @ [[?img]] \<rparr>"
    using addImage_last [of "addPage d" "pages d" "[]" ?img] by (simp add: addPage_def)
  have "render_loop rd li policy pw ph m i (f # fs) d =
      render_loop rd li policy pw ph m (i + 1) fs (d \<lparr> pages := pages d @ [[?img]] \<rparr>)"
    using u r Cons.prems(2) a by (simp add: Let_def)
  also have "\<dots> = Inr ((d \<lparr> pages := pages d @ [[?img]] \<rparr>)
       \<lparr> pages := pages (d \<lparr> pages := pages d @ [[?img]] \<rparr>) @ map (entry_page rd li policy pw ph m) fs \<rparr>)"
    using Cons.prems(1) by (intro Cons.IH) simp_all
  finally show ?case by (simp add: e)
qed

lemma render_loop_first:
  assumes "\<forall>f\<in>set fs. decodes rd li f"
  shows "render_loop rd li policy pw ph m 0 fs (jsPDF fmt b) =
     Inr ((jsPDF fmt b) \<lparr> pages := (if fs = [] then [[]] else map (entry_page rd li policy pw ph m) fs) \<rparr>)"
proof (cases fs)
  case Nil
  then show ?thesis by (simp add: jsPDF_def)
next
  case (Cons f fs')
  from assms Cons obtain u wpx hpx r where u: "rd f = Some u" "li u = Some (wpx, hpx)"
    and r: "place policy pw ph m wpx hpx = Inr r"
    and e: "entry_page rd li policy pw ph m f =
       [\<lparr> dataUrl = u, tag = typeTag (file_type f), box = r \<rparr>]"
    using entry_page_decodes [of rd li f policy pw ph m] by auto
  let ?img = "\<lparr> dataUrl = u, tag = typeTag (file_type f), box = r \<rparr>"
  let ?d = "(jsPDF fmt b) \<lparr> pages := [[?img]] \<rparr>"
  have a: "addImage ?img (jsPDF fmt b) = ?d"
    by (simp add: addImage_def jsPDF_def)
  have "render_loop rd li policy pw ph m 0 (f # fs') (jsPDF fmt b) =
      render_loop rd li policy pw ph m (0 + 1) fs' ?d"
    using u r a by (simp add: Let_def)
  also have "\<dots> = Inr (?d \<lparr> pages := pages ?d @ map (entry_page rd li policy pw ph m) fs' \<rparr>)"
    using assms Cons by (intro render_loop_later) simp_all
  finally show ?thesis using Cons by (simp add: e)
qed

text \<open>
  Claim C5. For every non-empty list of \<open>n\<close> entries, all of which load,
  \<^verbatim>\<open>generatePDF\<close> saves a document with exactly \<open>n\<close> pages in the order of the entries,
  the \<open>k\<close>-th page holding the one image of the \<open>k\<close>-th entry. The new document starts
  with one page, which takes the first entry; after the first \<open>k + 1\<close> entries the
  document consists of the first \<open>k + 1\<close> of these pages, so every later entry adds
  exactly one page. (An entry that does not load aborts the run; that is the decode
  failure of the error handling, not part of this claim.)
\<close>

theorem generatePDF_one_page_per_entry:
  assumes "files st \<noteq> []" and "\<forall>f\<in>set (files st). decodes readAsDataURL loadImage f"
  shows "\<exists>d. snd (generatePDF readAsDataURL loadImage st) =
             \<lparr> alerts = [], created = True, saved = Some (fileName st @ ''.pdf'', d) \<rparr> \<and>
           length (pages d) = length (files st) \<and>
           pages d = map (entry_page readAsDataURL loadImage (imageSize st)
                           (pageWidth (pageSize st) (orientation st))
                           (pageHeight (pageSize st) (orientation st)) (margin st)) (files st) \<and>
           (\<forall>k<length (files st). length (pages d ! k) = 1) \<and>
           length (pages (jsPDF (pageWidth (pageSize st) (orientation st),
                                 pageHeight (pageSize st) (orientation st))
                            (orientation st = landscape))) = 1 \<and>
           (\<forall>k<length (files st).
              \<exists>d'. render_loop readAsDataURL loadImage (imageSize st)
                     (pageWidth (pageSize st) (orientation st))
                     (pageHeight (pageSize st) (orientation st)) (margin st) 0
                     (take (Suc k) (files st))
                     (jsPDF (pageWidth (pageSize st) (orientation st),
                             pageHeight (pageSize st) (orientation st))
                        (orientation st = landscape)) = Inr d' \<and>
                   pages d' = take (Suc k) (pages d))"
proof -
  let ?pw = "pageWidth (pageSize st) (orientation st)"
  let ?ph = "pageHeight (pageSize st) (orientation st)"
  let ?page = "entry_page readAsDataURL loadImage (imageSize st) ?pw ?ph (margin st)"
  let ?init = "jsPDF (?pw, ?ph) (orientation st = landscape)"
  let ?d = "?init \<lparr> pages := map ?page (files st) \<rparr>"
  have loop: "render_loop readAsDataURL loadImage (imageSize st) ?pw ?ph (margin st) 0 (files st) ?init = Inr ?d"
    using render_loop_first [OF assms(2), of "imageSize st" ?pw ?ph "margin st" "(?pw, ?ph)"
        "orientation st = landscape"] assms(1)
    by simp
  have out: "snd (generatePDF readAsDataURL loadImage st) =
      \<lparr> alerts = [], created = True, saved = Some (fileName st @ ''.pdf'', ?d) \<rparr>"
    using assms(1) loop by (simp add: generatePDF_def Let_def)
  have one: "length (pages ?d ! k) = 1" if "k < length (files st)" for k
  proof -
    from that have "files st ! k \<in> set (files st)" by simp
    with assms(2) have "decodes readAsDataURL loadImage (files st ! k)" by blast
    then have "length (?page (files st ! k)) = 1"
      using entry_page_decodes [of readAsDataURL loadImage "files st ! k" "imageSize st" ?pw ?ph "margin st"]
      by auto
    with that show ?thesis by simp
  qed
  have pre: "render_loop readAsDataURL loadImage (imageSize st) ?pw ?ph (margin st) 0
        (take (Suc k) (files st)) ?init =
      Inr (?init \<lparr> pages := take (Suc k) (pages ?d) \<rparr>)" if "k < length (files st)" for k
  proof -
    have dec: "\<forall>f\<in>set (take (Suc k) (files st)). decodes readAsDataURL loadImage f"
      using assms(2) by (meson in_set_takeD)
    have ne: "take (Suc k) (files st) \<noteq> []"
      using assms(1) by simp
    show ?thesis
      using render_loop_first [OF dec, of "imageSize st" ?pw ?ph "margin st" "(?pw, ?ph)"
          "orientation st = landscape"] ne
      by (simp add: take_map)
  qed
  have first: "length (pages ?init) = 1"
    by (simp add: jsPDF_def)
  have "snd (generatePDF readAsDataURL loadImage st) =
          \<lparr> alerts = [], created = True, saved = Some (fileName st @ ''.pdf'', ?d) \<rparr> \<and>
        length (pages ?d) = length (files st) \<and>
        pages ?d = map ?page (files st) \<and>
        (\<forall>k<length (files st). length (pages ?d ! k) = 1) \<and>
        length (pages ?init) = 1 \<and>
        (\<forall>k<length (files st).
           \<exists>d'. render_loop readAsDataURL loadImage (imageSize st) ?pw ?ph (margin st) 0
                  (take (Suc k) (files st)) ?init = Inr d' \<and>
                pages d' = take (Suc k) (pages ?d))"
    using out one first pre by simp
  then show ?thesis by (rule exI [of _ ?d])
qed

theorem generatePDF_one_page_per_entry_witness:
  "files scenario \<noteq> [] \<and>
   (\<exists>d. saved (snd (generatePDF (\<lambda>f. Some (file_name f)) (\<lambda>u. Some (960, 1280)) scenario)) = Some (''images-to-pdf.pdf'', d) \<and>
      length (pages d) = 3 \<and>
      map (map dataUrl) (pages d) = [[''b.png''], [''a.jpg''], [''c.gif'']] \<and>
      map (map tag) (pages d) = [[''PNG''], [''JPEG''], [''JPEG'']])"
proof -
  have h1: "files scenario \<noteq> []"
    by (simp add: scenario_eq scenario_files_def)
  have h2: "\<forall>f\<in>set (files scenario). decodes (\<lambda>f. Some (file_name f)) (\<lambda>u. Some (960, 1280)) f"
    by (simp add: scenario_eq scenario_files_def decodes_def)
  show ?thesis
    using generatePDF_one_page_per_entry [OF h1 h2] h1 h2
    by (auto simp add: scenario_eq scenario_files_def initial_def entry_page_def typeTag_def
        pageWidth_def pageHeight_def js_lit_values place_fit_scenario)
qed


section \<open>Properties of sorting\<close>

lemma lex_compare_sym: "(lex_compare a b < 0) = (0 < lex_compare b a)"
  by (induction a b rule: lex_compare.induct) auto

lemma lex_compare_trans:
  "lex_compare a b \<le> 0 \<Longrightarrow> lex_compare b c \<le> 0 \<Longrightarrow> lex_compare a c \<le> 0"
proof (induction a b arbitrary: c rule: lex_compare.induct)
  case 1
  then show ?case by simp
next
  case (2 b bs)
  then show ?case by (cases c) auto
next
  case (3 a as)
  then show ?case by simp
next
  case (4 a as b bs)
  show ?case
  proof (cases c)
    case Nil
    with 4 show ?thesis by simp
  next
    case (Cons x xs)
    from "4.prems"(1) have ab: "a \<le> b" by (simp split: if_splits)
    from "4.prems"(2) Cons have bx: "b \<le> x" by (simp split: if_splits)
    show ?thesis
    proof (cases "a < x")
      case True
      with Cons show ?thesis by simp
    next
      case False
      with ab bx have e: "a = b" "b = x" by simp_all
      with "4.prems" Cons have "lex_compare as bs \<le> 0" "lex_compare bs xs \<le> 0" by simp_all
      then have "lex_compare as xs \<le> 0" using "4.IH" e by simp
      with e Cons show ?thesis by simp
    qed
  qed
qed

lemma name_compare_sym: "(name_compare s t < 0) = (0 < name_compare t s)"
  by (simp add: name_compare_def lex_compare_sym)

lemma name_compare_trans:
  "name_compare s t \<le> 0 \<Longrightarrow> name_compare t u \<le> 0 \<Longrightarrow> name_compare s u \<le> 0"
  unfolding name_compare_def by (rule lex_compare_trans)

lemma mset_js_insort: "mset (js_insort c v xs) = add_mset v (mset xs)"
  by (induction xs) simp_all

lemma mset_js_sort: "mset (js_sort c xs) = mset xs"
  by (induction xs) (simp_all add: js_sort_def mset_js_insort)

lemma set_js_insort: "set (js_insort c v xs) = insert v (set xs)"
  using mset_js_insort [of c v xs] by (metis set_mset_add_mset_insert set_mset_mset)

lemma sorted_js_insort:
  assumes sym: "\<And>a b. (c a b < 0) = (0 < c b a)"
    and trans: "\<And>a b d. c a b \<le> 0 \<Longrightarrow> c b d \<le> 0 \<Longrightarrow> c a d \<le> 0"
    and "sorted_wrt (\<lambda>a b. c a b \<le> 0) xs"
  shows "sorted_wrt (\<lambda>a b. c a b \<le> 0) (js_insort c v xs)"
  using assms(3)
proof (induction xs)
  case Nil
  then show ?case by simp
next
  case (Cons w ws)
  show ?case
  proof (cases "c v w \<le> 0")
    case True
    have "c v y \<le> 0" if "y \<in> set ws" for y
      using True Cons.prems that trans [of v w y] by simp
    with True Cons.prems show ?thesis by simp
  next
    case False
    then have "c w v < 0" using sym [of w v] by simp
    then have "c w y \<le> 0" if "y \<in> set (js_insort c v ws)" for y
      using that Cons.prems by (auto simp add: set_js_insort)
    with False Cons show ?thesis by simp
  qed
qed

lemma sorted_js_sort:
  assumes sym: "\<And>a b. (c a b < 0) = (0 < c b a)"
    and trans: "\<And>a b d. c a b \<le> 0 \<Longrightarrow> c b d \<le> 0 \<Longrightarrow> c a d \<le> 0"
  shows "sorted_wrt (\<lambda>a b. c a b \<le> 0) (js_sort c xs)"
proof (induction xs)
  case Nil
  then show ?case by (simp add: js_sort_def)
next
  case (Cons x xs)
  have "js_sort c (x # xs) = js_insort c x (js_sort c xs)"
    by (simp add: js_sort_def)
  with Cons show ?case
    using sorted_js_insort [of c "js_sort c xs" x] sym trans by simp
qed

lemma filter_js_insort:
  assumes "\<And>w. P v \<Longrightarrow> P w \<Longrightarrow> c v w \<le> 0"
  shows "filter P (js_insort c v xs) = (if P v then v # filter P xs else filter P xs)"
  using assms by (induction xs) auto

lemma filter_js_sort:
  assumes "\<And>v w. P v \<Longrightarrow> P w \<Longrightarrow> c v w \<le> 0"
  shows "filter P (js_sort c xs) = filter P xs"
proof (induction xs)
  case Nil
  then show ?case by (simp add: js_sort_def)
next
  case (Cons x xs)
  have "js_sort c (x # xs) = js_insort c x (js_sort c xs)"
    by (simp add: js_sort_def)
  then show ?case
    using Cons filter_js_insort [of P x c "js_sort c xs"] assms by simp
qed

lemma sorted_wrt_unique:
  assumes "sorted_wrt R xs" and "sorted_wrt R ys" and "mset xs = mset ys"
    and "\<And>a b. a \<in> set xs \<Longrightarrow> b \<in> set xs \<Longrightarrow> R a b \<Longrightarrow> R b a \<Longrightarrow> a = b"
  shows "xs = ys"
  using assms
proof (induction xs arbitrary: ys)
  case Nil
  then show ?case by simp
next
  case (Cons x xs)
  from Cons.prems(3) obtain y ys' where ys: "ys = y # ys'"
    by (cases ys) auto
  have sets: "set (x # xs) = set (y # ys')"
    using Cons.prems(3) ys by (metis mset_eq_setD)
  have xy: "x = y"
  proof (rule ccontr)
    assume ne: "x \<noteq> y"
    with sets have "x \<in> set ys'" and "y \<in> set xs" by auto
    then have "R y x" and "R x y"
      using Cons.prems(1,2) ys by auto
    moreover have "y \<in> set (x # xs)" using sets by simp
    ultimately have "x = y" using Cons.prems(4) [of x y] by simp
    with ne show False by simp
  qed
  then have "mset xs = mset ys'" using Cons.prems(3) ys by simp
  moreover have "sorted_wrt R xs" "sorted_wrt R ys'"
    using Cons.prems(1,2) ys by simp_all
  ultimately have "xs = ys'"
    using Cons.IH [of ys'] Cons.prems(4) by simp
  with xy ys show ?case by simp
qed

lemma compareFn_sym:
  assumes "\<And>a b. (lc a b < 0) = (0 < lc b a)"
  shows "(compareFn lc ord p q < 0) = (0 < compareFn lc ord q p)"
  using assms by (simp add: compareFn_def)

lemma compareFn_trans:
  assumes "\<And>a b c. lc a b \<le> 0 \<Longrightarrow> lc b c \<le> 0 \<Longrightarrow> lc a c \<le> 0"
    and "compareFn lc ord p q \<le> 0" and "compareFn lc ord q r \<le> 0"
  shows "compareFn lc ord p r \<le> 0"
  using assms(2,3) assms(1) [of "name p" "name q" "name r"] assms(1) [of "name r" "name q" "name p"]
  by (simp add: compareFn_def split: if_splits)

lemma compareFn_equiv:
  assumes sym: "\<And>a b. (lc a b < 0) = (0 < lc b a)"
    and trans: "\<And>a b c. lc a b \<le> 0 \<Longrightarrow> lc b c \<le> 0 \<Longrightarrow> lc a c \<le> 0"
    and "lc (name p) k = 0" and "lc (name q) k = 0"
  shows "compareFn lc ord p q \<le> 0"
proof -
  have kp: "lc k (name p) \<le> 0" using sym [of "name p" k] assms(3) by simp
  have kq: "lc k (name q) \<le> 0" using sym [of "name q" k] assms(4) by simp
  have "lc (name p) (name q) \<le> 0" using trans [of "name p" k "name q"] assms(3) kq by simp
  moreover have "lc (name q) (name p) \<le> 0" using trans [of "name q" k "name p"] assms(4) kp by simp
  ultimately show ?thesis by (simp add: compareFn_def)
qed

lemma sortImages_previews:
  "previews (sortImages lc st) =
     js_sort (compareFn lc (if sortOrder st = asc then desc else asc)) (previews st)"
  "sortOrder (sortImages lc st) = (if sortOrder st = asc then desc else asc)"
  "files (sortImages lc st) = map pfile (previews (sortImages lc st))"
  by (simp_all add: sortImages_def Let_def)

lemma sorted_compareFn:
  assumes sym: "\<And>a b. (lc a b < 0) = (0 < lc b a)"
    and trans: "\<And>a b c. lc a b \<le> 0 \<Longrightarrow> lc b c \<le> 0 \<Longrightarrow> lc a c \<le> 0"
  shows "sorted_wrt (\<lambda>p q. compareFn lc ord p q \<le> 0) (js_sort (compareFn lc ord) xs)"
proof (rule sorted_js_sort)
  show "(compareFn lc ord a b < 0) = (0 < compareFn lc ord b a)" for a b
    using sym by (rule compareFn_sym)
  show "compareFn lc ord a b \<le> 0 \<Longrightarrow> compareFn lc ord b d \<le> 0 \<Longrightarrow> compareFn lc ord a d \<le> 0" for a b d
    using trans by (rule compareFn_trans)
qed

lemma stable_compareFn:
  assumes sym: "\<And>a b. (lc a b < 0) = (0 < lc b a)"
    and trans: "\<And>a b c. lc a b \<le> 0 \<Longrightarrow> lc b c \<le> 0 \<Longrightarrow> lc a c \<le> 0"
  shows "filter (\<lambda>p. lc (name p) k = 0) (js_sort (compareFn lc ord) xs) =
         filter (\<lambda>p. lc (name p) k = 0) xs"
proof (rule filter_js_sort)
  show "lc (name v) k = 0 \<Longrightarrow> lc (name w) k = 0 \<Longrightarrow> compareFn lc ord v w \<le> 0" for v w
    using sym trans by (rule compareFn_equiv)
qed

lemma mirrored_compareFn:
  assumes sym: "\<And>a b. (lc a b < 0) = (0 < lc b a)"
    and trans: "\<And>a b c. lc a b \<le> 0 \<Longrightarrow> lc b c \<le> 0 \<Longrightarrow> lc a c \<le> 0"
    and ties: "\<forall>p\<in>set xs. \<forall>q\<in>set xs. lc (name p) (name q) = 0 \<longrightarrow> p = q"
    and opp: "\<And>a b. compareFn lc ord2 a b = compareFn lc ord1 b a"
  shows "js_sort (compareFn lc ord2) (js_sort (compareFn lc ord1) xs) =
         rev (js_sort (compareFn lc ord1) xs)"
proof (rule sorted_wrt_unique [where R = "\<lambda>p q. compareFn lc ord2 p q \<le> 0"])
  let ?ys = "js_sort (compareFn lc ord1) xs"
  show "sorted_wrt (\<lambda>p q. compareFn lc ord2 p q \<le> 0) (js_sort (compareFn lc ord2) ?ys)"
    using sym trans by (rule sorted_compareFn)
  have "sorted_wrt (\<lambda>p q. compareFn lc ord1 p q \<le> 0) ?ys"
    using sym trans by (rule sorted_compareFn)
  then show "sorted_wrt (\<lambda>p q. compareFn lc ord2 p q \<le> 0) (rev ?ys)"
    by (simp add: sorted_wrt_rev opp)
  show "mset (js_sort (compareFn lc ord2) ?ys) = mset (rev ?ys)"
    by (simp add: mset_js_sort)
  show "a = b"
    if "a \<in> set (js_sort (compareFn lc ord2) ?ys)" and "b \<in> set (js_sort (compareFn lc ord2) ?ys)"
      and "compareFn lc ord2 a b \<le> 0" and "compareFn lc ord2 b a \<le> 0" for a b
  proof -
    have "set (js_sort (compareFn lc ord2) ?ys) = set xs"
      by (metis mset_js_sort mset_eq_setD)
    with that have ab: "a \<in> set xs" "b \<in> set xs" by simp_all
    from that(3,4) have "lc (name a) (name b) \<le> 0 \<and> lc (name b) (name a) \<le> 0"
      by (auto simp add: compareFn_def split: if_splits)
    then have "lc (name a) (name b) = 0"
      using sym [of "name a" "name b"] by simp
    with ab ties show ?thesis by blast
  qed
qed

text \<open>
  What \<^verbatim>\<open>sortImages\<close> does for every consistent comparator, whatever the stored
  direction: it flips the stored direction and sorts by the flipped one, so two runs in
  a row sort in the two directions in turn. Both results are permutations of the
  entries, the raw files follow the previews, and entries whose names compare equal
  keep their prior relative order. The second result is the mirror image of the first
  when no two different entries have names that compare equal.
\<close>

lemma sortImages_toggles_and_sorts:
  assumes "\<forall>a b. (localeCompare a b < 0) = (0 < localeCompare b a)"
    and "\<forall>a b c. localeCompare a b \<le> 0 \<longrightarrow> localeCompare b c \<le> 0 \<longrightarrow> localeCompare a c \<le> 0"
  shows "let s1 = sortImages localeCompare st; s2 = sortImages localeCompare s1;
             ascending = sorted_wrt (\<lambda>p q. localeCompare (name p) (name q) \<le> 0);
             descending = sorted_wrt (\<lambda>p q. localeCompare (name q) (name p) \<le> 0);
             tied = (\<lambda>k. filter (\<lambda>p. localeCompare (name p) k = 0))
         in sortOrder s1 = (if sortOrder st = asc then desc else asc) \<and>
            sortOrder s2 = sortOrder st \<and>
            mset (previews s1) = mset (previews st) \<and>
            mset (previews s2) = mset (previews st) \<and>
            files s1 = map pfile (previews s1) \<and>
            files s2 = map pfile (previews s2) \<and>
            (if sortOrder st = asc
             then descending (previews s1) \<and> ascending (previews s2)
             else ascending (previews s1) \<and> descending (previews s2)) \<and>
            (\<forall>k. tied k (previews s1) = tied k (previews st)) \<and>
            (\<forall>k. tied k (previews s2) = tied k (previews st)) \<and>
            ((\<forall>p\<in>set (previews st). \<forall>q\<in>set (previews st).
                 localeCompare (name p) (name q) = 0 \<longrightarrow> p = q)
               \<longrightarrow> previews s2 = rev (previews s1))"
proof -
  let ?lc = localeCompare
  have sym: "(?lc a b < 0) = (0 < ?lc b a)" for a b
    using assms(1) by simp
  have trans: "?lc a b \<le> 0 \<Longrightarrow> ?lc b c \<le> 0 \<Longrightarrow> ?lc a c \<le> 0" for a b c
    using assms(2) by blast
  let ?o1 = "if sortOrder st = asc then desc else asc"
  let ?s1 = "sortImages ?lc st"
  let ?s2 = "sortImages ?lc ?s1"
  have o2: "(if sortOrder ?s1 = asc then desc else asc) = sortOrder st"
    by (cases "sortOrder st") (simp_all add: sortImages_previews)
  have p1: "previews ?s1 = js_sort (compareFn ?lc ?o1) (previews st)"
    by (rule sortImages_previews)
  have p2: "previews ?s2 = js_sort (compareFn ?lc (sortOrder st)) (previews ?s1)"
    using sortImages_previews(1) [of ?lc ?s1] o2 by simp
  have m1: "mset (previews ?s1) = mset (previews st)"
    by (simp add: p1 mset_js_sort)
  have m2: "mset (previews ?s2) = mset (previews st)"
    by (simp add: p2 mset_js_sort m1)
  have srt1: "sorted_wrt (\<lambda>p q. compareFn ?lc ?o1 p q \<le> 0) (previews ?s1)"
    unfolding p1 using sym trans by (rule sorted_compareFn)
  have srt2: "sorted_wrt (\<lambda>p q. compareFn ?lc (sortOrder st) p q \<le> 0) (previews ?s2)"
    unfolding p2 using sym trans by (rule sorted_compareFn)
  have dir: "if sortOrder st = asc
      then sorted_wrt (\<lambda>p q. ?lc (name q) (name p) \<le> 0) (previews ?s1) \<and>
           sorted_wrt (\<lambda>p q. ?lc (name p) (name q) \<le> 0) (previews ?s2)
      else sorted_wrt (\<lambda>p q. ?lc (name p) (name q) \<le> 0) (previews ?s1) \<and>
           sorted_wrt (\<lambda>p q. ?lc (name q) (name p) \<le> 0) (previews ?s2)"
    using srt1 srt2 by (cases "sortOrder st") (simp_all add: compareFn_def)
  have st1: "filter (\<lambda>p. ?lc (name p) k = 0) (previews ?s1) =
      filter (\<lambda>p. ?lc (name p) k = 0) (previews st)" for k
    unfolding p1 using sym trans by (rule stable_compareFn)
  have st2': "filter (\<lambda>p. ?lc (name p) k = 0) (js_sort (compareFn ?lc (sortOrder st)) (previews ?s1)) =
      filter (\<lambda>p. ?lc (name p) k = 0) (previews ?s1)" for k
    using sym trans by (rule stable_compareFn)
  have st2: "filter (\<lambda>p. ?lc (name p) k = 0) (previews ?s2) =
      filter (\<lambda>p. ?lc (name p) k = 0) (previews st)" for k
    using st2' [of k] st1 [of k] by (simp only: p2)
  have opp: "compareFn ?lc (sortOrder st) a b = compareFn ?lc ?o1 b a" for a b
    by (cases "sortOrder st") (simp_all add: compareFn_def)
  have mir: "previews ?s2 = rev (previews ?s1)"
    if "\<forall>p\<in>set (previews st). \<forall>q\<in>set (previews st). ?lc (name p) (name q) = 0 \<longrightarrow> p = q"
    unfolding p2 p1 using sym trans that opp by (rule mirrored_compareFn)
  show ?thesis
    unfolding Let_def
    using sortImages_previews(2) [of ?lc st] sortImages_previews(2) [of ?lc ?s1] o2
      m1 m2 sortImages_previews(3) [of ?lc st] sortImages_previews(3) [of ?lc ?s1]
      dir st1 st2 mir
    by simp
qed

text \<open>
  Claim C3. Sort takes no direction and toggles a stored direction; two invocations in a
  row are to yield the ascending and then the descending order of the names. The code
  misses the order of the two: in the session of the scenario the stored direction is
  the initial \<open>asc\<close> and the sort button reads \<open>Sort A->Z\<close>, but the handler flips the
  direction before it sorts, so the first invocation yields the descending order and
  only the second the ascending one.
\<close>

theorem sortImages_first_click_descending:
  "sortOrder scenario = asc \<and>
   sortLabel scenario = ''Sort A->Z'' \<and>
   map name (previews scenario) = [''b.png'', ''a.jpg'', ''c.gif''] \<and>
   map name (previews (sortImages name_compare scenario)) = [''c.gif'', ''b.png'', ''a.jpg''] \<and>
   sortLabel (sortImages name_compare scenario) = ''Sort Z->A'' \<and>
   map name (previews (sortImages name_compare (sortImages name_compare scenario))) =
     [''a.jpg'', ''b.png'', ''c.gif'']"
  by code_simp

end
